theory Spec2Isabelle
  imports Complex_Main "HOL-Library.Word" "HOL-Library.Multiset" "HOL-Library.Log_Nat"
begin

section \<open>Doubles\<close>

text \<open>
  A \<^verbatim>\<open>double\<close> is an IEEE 754 binary64 value: NaN, an infinity, or a finite number. The
  finite numbers are the reals \<open>m * 2\<^sup>e\<close> with \<open>\<bar>m\<bar> < 2\<^sup>5\<^sup>3\<close> and \<open>- 1074 \<le> e \<le> 971\<close>
  (\<open>is_double\<close>). The two zeros are one value: the program compares, adds, halves and
  divides by counts, and none of these tells them apart. There is one NaN.
\<close>

datatype double = NaN | NInf | PInf | Fin real

definition is_double :: "real \<Rightarrow> bool" where
  "is_double x \<longleftrightarrow>
     (\<exists>m e. x = of_int m * 2 powi e \<and> \<bar>m\<bar> < 2 ^ 53 \<and> - 1074 \<le> e \<and> e \<le> 971)"

text \<open>Rounding to the nearest integer, a tie going to the even one.\<close>

definition rne :: "real \<Rightarrow> int" where
  "rne q = (let f = \<lfloor>q\<rfloor>; d = q - of_int f
            in if d < 1 / 2 then f else if 1 / 2 < d then f + 1
               else if even f then f else f + 1)"

text \<open>
  The rounding of a real result to a double (round to nearest, ties to even, the default
  mode): \<open>y\<close> is the size of \<open>x\<close> in units of \<open>2\<^sup>-\<^sup>1\<^sup>0\<^sup>7\<^sup>4\<close>, the least positive double; a
  double keeps 53 bits, so the last \<open>j\<close> bits of \<open>y\<close> are rounded away; a result of size
  \<open>2\<^sup>1\<^sup>0\<^sup>2\<^sup>4\<close> or more is an infinity.
\<close>

definition fl :: "real \<Rightarrow> double" where
  "fl x = (let y = \<bar>x\<bar> * 2 ^ 1074;
               j = nat (bitlen \<lfloor>y\<rfloor> - 53);
               r = of_int (rne (y / 2 ^ j)) * 2 ^ j / 2 ^ 1074
           in if 2 ^ 1024 \<le> r then (if 0 < x then PInf else NInf)
              else Fin (if 0 \<le> x then r else - r))"

text \<open>The operators of the source on doubles: \<^verbatim>\<open>+\<close>, \<^verbatim>\<open>*\<close>, \<^verbatim>\<open>/\<close>, \<^verbatim>\<open><\<close>, \<^verbatim>\<open>>\<close> and \<^verbatim>\<open>!=\<close>.\<close>

fun dadd :: "double \<Rightarrow> double \<Rightarrow> double" where
  "dadd NaN b = NaN"
| "dadd a NaN = NaN"
| "dadd PInf NInf = NaN"
| "dadd NInf PInf = NaN"
| "dadd PInf b = PInf"
| "dadd NInf b = NInf"
| "dadd a PInf = PInf"
| "dadd a NInf = NInf"
| "dadd (Fin x) (Fin y) = fl (x + y)"

fun dmul :: "double \<Rightarrow> double \<Rightarrow> double" where
  "dmul NaN b = NaN"
| "dmul a NaN = NaN"
| "dmul PInf PInf = PInf"
| "dmul PInf NInf = NInf"
| "dmul NInf PInf = NInf"
| "dmul NInf NInf = PInf"
| "dmul PInf (Fin y) = (if y = 0 then NaN else if 0 < y then PInf else NInf)"
| "dmul NInf (Fin y) = (if y = 0 then NaN else if 0 < y then NInf else PInf)"
| "dmul (Fin x) PInf = (if x = 0 then NaN else if 0 < x then PInf else NInf)"
| "dmul (Fin x) NInf = (if x = 0 then NaN else if 0 < x then NInf else PInf)"
| "dmul (Fin x) (Fin y) = fl (x * y)"

text \<open>A divisor that is zero is the \<open>+ 0\<close> that the conversion of a count gives.\<close>

fun ddiv :: "double \<Rightarrow> double \<Rightarrow> double" where
  "ddiv NaN b = NaN"
| "ddiv a NaN = NaN"
| "ddiv PInf PInf = NaN"
| "ddiv PInf NInf = NaN"
| "ddiv NInf PInf = NaN"
| "ddiv NInf NInf = NaN"
| "ddiv PInf (Fin y) = (if 0 \<le> y then PInf else NInf)"
| "ddiv NInf (Fin y) = (if 0 \<le> y then NInf else PInf)"
| "ddiv (Fin x) PInf = Fin 0"
| "ddiv (Fin x) NInf = Fin 0"
| "ddiv (Fin x) (Fin y) =
     (if y = 0 then (if x = 0 then NaN else if 0 < x then PInf else NInf)
      else fl (x / y))"

fun dlt :: "double \<Rightarrow> double \<Rightarrow> bool" where
  "dlt NaN b = False"
| "dlt a NaN = False"
| "dlt PInf b = False"
| "dlt a NInf = False"
| "dlt NInf b = True"
| "dlt a PInf = True"
| "dlt (Fin x) (Fin y) = (x < y)"

definition dgt :: "double \<Rightarrow> double \<Rightarrow> bool" where
  "dgt a b = dlt b a"

definition dne :: "double \<Rightarrow> double \<Rightarrow> bool" where
  "dne a b \<longleftrightarrow> a = NaN \<or> b = NaN \<or> a \<noteq> b"

text \<open>The conversions of a \<^verbatim>\<open>size_t\<close> and of an \<^verbatim>\<open>int\<close> to \<^verbatim>\<open>double\<close>.\<close>

definition double_of_size :: "nat \<Rightarrow> double" where
  "double_of_size n = fl (real n)"


section \<open>Data model (include/exchange.h)\<close>

text \<open>
  The C++ \<^verbatim>\<open>int\<close> is a 32-bit two's-complement integer: \<open>+\<close> and \<open>-\<close> wrap around,
  the comparisons of the source are the signed ones (\<open>\<le>s\<close>, \<open><s\<close>) and \<open>sint\<close> reads the
  value. A price is a \<open>double\<close>.
\<close>

type_synonym cint = "32 word"

record Trade =
  buy_agent_id :: cint
  sell_agent_id :: cint
  instrument_id :: cint
  price :: double
  volume :: cint
  timestamp :: cint

record Order =
  agent_id :: cint
  instrument_id :: cint
  price :: double
  volume :: cint
  is_buy :: bool
  timestamp :: cint
  order_id :: cint

record OrderBook =
  bids :: "Order list"
  asks :: "Order list"
  last_price :: double
  price_history :: "double list"

text \<open>
  The two members of \<^verbatim>\<open>MarketDataManager\<close> (include/marketdata.h): the rank of the process
  and the number of processes.
\<close>

record MarketDataManager =
  rank :: cint
  size' :: cint

record Exchange =
  rank :: cint
  num_instruments :: cint
  order_books :: "OrderBook list"
  pending_orders :: "Order list"
  trade_log :: "Trade list"
  next_order_id :: cint

section \<open>OrderBook (src/exchange.cpp)\<close>

text \<open>The constructor \<^verbatim>\<open>OrderBook()\<close>: last price 100.0, pushed on the empty history.\<close>

definition OrderBook_new :: OrderBook where
  "OrderBook_new =
     \<lparr>bids = [], asks = [], last_price = Fin 100, price_history = [] @ [Fin 100]\<rparr>"

definition bid_cmp :: "Order \<Rightarrow> Order \<Rightarrow> bool" where
  "bid_cmp a b =
     (if dne (price a) (price b) then dgt (price a) (price b)
      else timestamp a <s timestamp b)"

definition ask_cmp :: "Order \<Rightarrow> Order \<Rightarrow> bool" where
  "ask_cmp a b =
     (if dne (price a) (price b) then dlt (price a) (price b)
      else timestamp a <s timestamp b)"

definition add_order :: "Order \<Rightarrow> OrderBook \<Rightarrow> OrderBook" where
  "add_order order ob =
     (if is_buy order then ob\<lparr>bids := bids ob @ [order]\<rparr>
      else ob\<lparr>asks := asks ob @ [order]\<rparr>)"

text \<open>\<^verbatim>\<open>std::min(a, b)\<close> on \<^verbatim>\<open>int\<close>: \<open>b\<close> when \<open>b < a\<close>, else \<open>a\<close>.\<close>

definition std_min :: "cint \<Rightarrow> cint \<Rightarrow> cint" where
  "std_min a b = (if b <s a then b else a)"

text \<open>
  The \<^verbatim>\<open>while\<close> loop of \<^verbatim>\<open>match_orders\<close>. The state is the book (whose vectors the loop
  updates in place through the references \<^verbatim>\<open>bid\<close> and \<^verbatim>\<open>ask\<close>), the two indices and the
  trades recorded so far; \<^verbatim>\<open>break\<close> returns the state as it is.
\<close>

function match_loop ::
  "cint \<Rightarrow> OrderBook \<Rightarrow> nat \<Rightarrow> nat \<Rightarrow> Trade list \<Rightarrow> OrderBook \<times> nat \<times> nat \<times> Trade list"
where
  "match_loop current_tick ob bi ai trades =
     (if bi < length (bids ob) \<and> ai < length (asks ob) then
        let bid = bids ob ! bi; ask = asks ob ! ai in
        if dlt (price bid) (price ask) then (ob, bi, ai, trades)
        else
          let vol = std_min (volume bid) (volume ask);
              t = \<lparr>buy_agent_id = agent_id bid, sell_agent_id = agent_id ask,
                   Trade.instrument_id = instrument_id bid,
                   Trade.price = dmul (dadd (price bid) (price ask)) (Fin 0.5),
                   Trade.volume = vol, Trade.timestamp = current_tick\<rparr>;
              bid' = bid\<lparr>volume := volume bid - vol\<rparr>;
              ask' = ask\<lparr>volume := volume ask - vol\<rparr>;
              ob' = ob\<lparr>bids := (bids ob)[bi := bid'], asks := (asks ob)[ai := ask'],
                       last_price := Trade.price t,
                       price_history := price_history ob @ [Trade.price t]\<rparr>
          in match_loop current_tick ob'
               (if volume bid' = 0 then bi + 1 else bi)
               (if volume ask' = 0 then ai + 1 else ai)
               (trades @ [t])
      else (ob, bi, ai, trades))"
  by pat_completeness auto

termination
proof (relation "measure (\<lambda>(t, ob, bi, ai, ts). (length (bids ob) - bi) + (length (asks ob) - ai))")
  show "wf (measure (\<lambda>(t, ob, bi, ai, ts). (length (bids ob) - bi) + (length (asks ob) - ai)))"
    by simp
next
  fix current_tick :: cint and ob :: OrderBook and bi ai :: nat and trades :: "Trade list"
    and bid ask :: Order and vol :: cint and t :: Trade and bid' ask' :: Order and ob' :: OrderBook
  assume c: "bi < length (bids ob) \<and> ai < length (asks ob)"
    and v: "vol = std_min (volume bid) (volume ask)"
    and b': "bid' = bid\<lparr>volume := volume bid - vol\<rparr>"
    and a': "ask' = ask\<lparr>volume := volume ask - vol\<rparr>"
    and ob': "ob' = ob\<lparr>bids := (bids ob)[bi := bid'], asks := (asks ob)[ai := ask'],
                       last_price := Trade.price t,
                       price_history := price_history ob @ [Trade.price t]\<rparr>"
  have "volume bid' = 0 \<or> volume ask' = 0"
    using v b' a' by (auto simp: std_min_def)
  then show "((current_tick, ob', if volume bid' = 0 then bi + 1 else bi,
               if volume ask' = 0 then ai + 1 else ai, trades @ [t]),
              (current_tick, ob, bi, ai, trades))
             \<in> measure (\<lambda>(t, ob, bi, ai, ts). (length (bids ob) - bi) + (length (asks ob) - ai))"
    using c ob' by auto
qed

declare match_loop.simps [simp del]

text \<open>
  \<^verbatim>\<open>std::sort\<close> is a library routine, and it is not stable: orders that the comparator
  does not separate may come out in any order. It is a parameter \<open>std_sort\<close> of the model,
  constrained by its contract only: the result is a permutation of the input, and when no
  price of the input is NaN it is one in which no later element goes before an earlier
  one. With a NaN price the comparators are no strict weak orderings (every comparison
  with NaN is false, so NaN is equivalent to 90 and to 110, which are not equivalent) and
  the library promises nothing; the contract then keeps only that the orders are permuted,
  which is what the routine below does, and says nothing of their order.
\<close>

type_synonym std_sort = "(Order \<Rightarrow> Order \<Rightarrow> bool) \<Rightarrow> Order list \<Rightarrow> Order list"

definition sorted_by :: "(Order \<Rightarrow> Order \<Rightarrow> bool) \<Rightarrow> Order list \<Rightarrow> bool" where
  "sorted_by cmp ys = sorted_wrt (\<lambda>a b. \<not> cmp b a) ys"

definition no_nan :: "Order list \<Rightarrow> bool" where
  "no_nan xs \<longleftrightarrow> (\<forall>x \<in> set xs. price x \<noteq> NaN)"

definition is_std_sort :: "std_sort \<Rightarrow> bool" where
  "is_std_sort srt \<longleftrightarrow>
     (\<forall>xs. mset (srt bid_cmp xs) = mset xs \<and>
           (no_nan xs \<longrightarrow> sorted_by bid_cmp (srt bid_cmp xs))) \<and>
     (\<forall>xs. mset (srt ask_cmp xs) = mset xs \<and>
           (no_nan xs \<longrightarrow> sorted_by ask_cmp (srt ask_cmp xs)))"

text \<open>
  What \<^verbatim>\<open>std::sort\<close> does on a vector of at most 16 elements in the GNU library
  (libstdc++): the insertion sort \<^verbatim>\<open>__insertion_sort\<close>. An element that goes before
  the first one is moved to the front; any other is moved back past the elements it goes
  before (\<^verbatim>\<open>__unguarded_linear_insert\<close>, here on the reversed prefix). It meets the contract
  on vectors of any length, and it says what the code does with a NaN price.
\<close>

fun unguarded_linear_insert ::
  "(Order \<Rightarrow> Order \<Rightarrow> bool) \<Rightarrow> Order \<Rightarrow> Order list \<Rightarrow> Order list" where
  "unguarded_linear_insert cmp val [] = [val]"
| "unguarded_linear_insert cmp val (p # ps) =
     (if cmp val p then p # unguarded_linear_insert cmp val ps else val # p # ps)"

definition linear_insert ::
  "(Order \<Rightarrow> Order \<Rightarrow> bool) \<Rightarrow> Order list \<Rightarrow> Order \<Rightarrow> Order list" where
  "linear_insert cmp prefix val =
     (if cmp val (hd prefix) then val # prefix
      else rev (unguarded_linear_insert cmp val (rev prefix)))"

fun insertion_sort :: std_sort where
  "insertion_sort cmp [] = []"
| "insertion_sort cmp (x # xs) = foldl (linear_insert cmp) [x] xs"

text \<open>
  \<^verbatim>\<open>match_orders\<close>: sort both sides, run the loop from \<open>bi = 0\<close>, \<open>ai = 0\<close> with no trades,
  erase the first \<open>bi\<close> bids and the first \<open>ai\<close> asks, return the trades (and the book).
\<close>

definition match_orders :: "std_sort \<Rightarrow> cint \<Rightarrow> OrderBook \<Rightarrow> Trade list \<times> OrderBook" where
  "match_orders srt current_tick ob =
     (let ob1 = ob\<lparr>bids := srt bid_cmp (bids ob), asks := srt ask_cmp (asks ob)\<rparr>;
          (ob2, bi, ai, trades) = match_loop current_tick ob1 0 0 []
      in (trades, ob2\<lparr>bids := drop bi (bids ob2), asks := drop ai (asks ob2)\<rparr>))"

definition get_last_price :: "OrderBook \<Rightarrow> double" where
  "get_last_price ob = last_price ob"

text \<open>
  \<^verbatim>\<open>std::accumulate\<close> from 0.0 is a left fold of \<open>+\<close> on doubles; the division converts
  the size to a double.
\<close>

definition get_historical_average :: "OrderBook \<Rightarrow> double" where
  "get_historical_average ob =
     (if price_history ob = [] then last_price ob
      else let sum = foldl dadd (Fin 0) (price_history ob)
           in ddiv sum (double_of_size (length (price_history ob))))"

section \<open>MarketDataManager (src/marketdata.cpp)\<close>



section \<open>Exchange (src/exchange.cpp)\<close>

text \<open>
  The constructor resizes \<open>order_books\<close> to \<open>num_instruments\<close> default books. A negative
  \<open>num_instruments\<close> converts to a size that \<^verbatim>\<open>resize\<close> refuses with an exception: \<open>None\<close>.
\<close>

definition Exchange_new :: "cint \<Rightarrow> cint \<Rightarrow> Exchange option" where
  "Exchange_new rank' num_instruments' =
     (if num_instruments' <s 0 then None
      else Some \<lparr>rank = rank', num_instruments = num_instruments',
                 order_books = replicate (nat (sint num_instruments')) OrderBook_new,
                 pending_orders = [], trade_log = [], next_order_id = 1\<rparr>)"

text \<open>The mutex only serialises the callers; the model is the sequence of their calls.\<close>

definition submit_order :: "Order \<Rightarrow> Exchange \<Rightarrow> Exchange" where
  "submit_order order ex =
     (let o' = order\<lparr>order_id := next_order_id ex\<rparr>
      in ex\<lparr>next_order_id := next_order_id ex + 1,
             pending_orders := pending_orders ex @ [o']\<rparr>)"

text \<open>The test of \<^verbatim>\<open>process_orders\<close>, \<^verbatim>\<open>get_price\<close> and \<^verbatim>\<open>get_historical_average\<close>,
  with the cast \<^verbatim>\<open>(int)order_books.size()\<close>.\<close>

definition valid_instrument :: "OrderBook list \<Rightarrow> cint \<Rightarrow> bool" where
  "valid_instrument obs instrument_id' \<longleftrightarrow>
     0 \<le>s instrument_id' \<and> instrument_id' <s (word_of_nat (length obs) :: cint)"

text \<open>The first loop of \<^verbatim>\<open>process_orders\<close>: take the front of the queue until it is empty.\<close>

fun route_pending :: "Order list \<Rightarrow> OrderBook list \<Rightarrow> OrderBook list" where
  "route_pending [] obs = obs"
| "route_pending (o' # queue) obs =
     route_pending queue
       (if valid_instrument obs (instrument_id o')
        then obs[nat (sint (instrument_id o')) :=
                   add_order o' (obs ! nat (sint (instrument_id o')))]
        else obs)"

text \<open>The second loop: match every book in the order of the index.\<close>

function match_books ::
  "std_sort \<Rightarrow> cint \<Rightarrow> Exchange \<Rightarrow> nat \<Rightarrow> cint \<Rightarrow> cint \<times> Exchange"
where
  "match_books srt current_tick ex i trades_total =
     (if i < length (order_books ex) then
        let (t, ob') = match_orders srt current_tick (order_books ex ! i)
        in match_books srt current_tick
             (ex\<lparr>order_books := (order_books ex)[i := ob'], trade_log := trade_log ex @ t\<rparr>)
             (i + 1) (trades_total + word_of_nat (length t))
      else (trades_total, ex))"
  by pat_completeness auto
termination
  by (relation "measure (\<lambda>(s, t, ex, i, n). length (order_books ex) - i)") auto

declare match_books.simps [simp del]

definition process_orders :: "std_sort \<Rightarrow> cint \<Rightarrow> Exchange \<Rightarrow> cint \<times> Exchange" where
  "process_orders srt current_tick ex =
     match_books srt current_tick
       (ex\<lparr>order_books := route_pending (pending_orders ex) (order_books ex),
           pending_orders := []\<rparr>) 0 0"

definition get_price :: "Exchange \<Rightarrow> cint \<Rightarrow> double" where
  "get_price ex instrument_id' =
     (if valid_instrument (order_books ex) instrument_id'
      then get_last_price (order_books ex ! nat (sint instrument_id'))
      else Fin 0)"

definition get_historical_average_of :: "Exchange \<Rightarrow> cint \<Rightarrow> double" where
  "get_historical_average_of ex instrument_id' =
     (if valid_instrument (order_books ex) instrument_id'
      then get_historical_average (order_books ex ! nat (sint instrument_id'))
      else Fin 0)"

section \<open>Vocabulary of the proofs\<close>

text \<open>
  One turn of the loop of \<^verbatim>\<open>match_orders\<close>, cut into its parts: the test that lets the loop
  go on, the volume of the trade, the trade, the book after the two subtractions and the
  two indices after the two tests on zero.
\<close>

definition crossing :: "OrderBook \<Rightarrow> nat \<Rightarrow> nat \<Rightarrow> bool" where
  "crossing ob bi ai \<longleftrightarrow>
     bi < length (bids ob) \<and> ai < length (asks ob) \<and>
     \<not> dlt (price (bids ob ! bi)) (price (asks ob ! ai))"

definition fill_volume :: "OrderBook \<Rightarrow> nat \<Rightarrow> nat \<Rightarrow> cint" where
  "fill_volume ob bi ai = std_min (volume (bids ob ! bi)) (volume (asks ob ! ai))"

definition trade_at :: "cint \<Rightarrow> OrderBook \<Rightarrow> nat \<Rightarrow> nat \<Rightarrow> Trade" where
  "trade_at current_tick ob bi ai =
     \<lparr>buy_agent_id = agent_id (bids ob ! bi), sell_agent_id = agent_id (asks ob ! ai),
      Trade.instrument_id = instrument_id (bids ob ! bi),
      Trade.price = dmul (dadd (price (bids ob ! bi)) (price (asks ob ! ai))) (Fin 0.5),
      Trade.volume = fill_volume ob bi ai, Trade.timestamp = current_tick\<rparr>"

definition fill_book :: "OrderBook \<Rightarrow> nat \<Rightarrow> nat \<Rightarrow> OrderBook" where
  "fill_book ob bi ai =
     ob\<lparr>bids := (bids ob)[bi := (bids ob ! bi)\<lparr>volume := volume (bids ob ! bi) - fill_volume ob bi ai\<rparr>],
        asks := (asks ob)[ai := (asks ob ! ai)\<lparr>volume := volume (asks ob ! ai) - fill_volume ob bi ai\<rparr>],
        last_price := dmul (dadd (price (bids ob ! bi)) (price (asks ob ! ai))) (Fin 0.5),
        price_history := price_history ob @
          [dmul (dadd (price (bids ob ! bi)) (price (asks ob ! ai))) (Fin 0.5)]\<rparr>"

definition next_bi :: "OrderBook \<Rightarrow> nat \<Rightarrow> nat \<Rightarrow> nat" where
  "next_bi ob bi ai = (if volume (bids ob ! bi) - fill_volume ob bi ai = 0 then bi + 1 else bi)"

definition next_ai :: "OrderBook \<Rightarrow> nat \<Rightarrow> nat \<Rightarrow> nat" where
  "next_ai ob bi ai = (if volume (asks ob ! ai) - fill_volume ob bi ai = 0 then ai + 1 else ai)"

text \<open>
  The trace of the loop, for the claims that speak of the trades against one order: one
  entry for each turn that trades, with the two indices into the sorted vectors and the
  volumes that remain on the two orders when they meet. It follows the loop turn by turn and
  changes nothing in it.
\<close>

record fill =
  bid_idx :: nat
  ask_idx :: nat
  bid_remaining :: cint
  ask_remaining :: cint

function match_fills :: "OrderBook \<Rightarrow> nat \<Rightarrow> nat \<Rightarrow> fill list" where
  "match_fills ob bi ai =
     (if crossing ob bi ai
      then \<lparr>bid_idx = bi, ask_idx = ai,
            bid_remaining = volume (bids ob ! bi), ask_remaining = volume (asks ob ! ai)\<rparr>
           # match_fills (fill_book ob bi ai) (next_bi ob bi ai) (next_ai ob bi ai)
      else [])"
  by pat_completeness auto
termination
  by (relation "measure (\<lambda>(ob, bi, ai). (length (bids ob) - bi) + (length (asks ob) - ai))")
     (auto simp: crossing_def fill_book_def next_bi_def next_ai_def fill_volume_def std_min_def)

declare match_fills.simps [simp del]

text \<open>The book after the two sorts of \<^verbatim>\<open>match_orders\<close>, and the trace of the whole call.\<close>

definition sorted_book :: "std_sort \<Rightarrow> OrderBook \<Rightarrow> OrderBook" where
  "sorted_book srt ob = ob\<lparr>bids := srt bid_cmp (bids ob), asks := srt ask_cmp (asks ob)\<rparr>"

definition pass_fills :: "std_sort \<Rightarrow> OrderBook \<Rightarrow> fill list" where
  "pass_fills srt ob = match_fills (sorted_book srt ob) 0 0"

text \<open>The trade of one entry of the trace, read off the sorted vectors \<open>bs\<close> and \<open>as\<close>.\<close>

definition fill_vol :: "fill \<Rightarrow> cint" where
  "fill_vol f = std_min (bid_remaining f) (ask_remaining f)"

definition fill_trade :: "cint \<Rightarrow> Order list \<Rightarrow> Order list \<Rightarrow> fill \<Rightarrow> Trade" where
  "fill_trade current_tick bs as f =
     \<lparr>buy_agent_id = agent_id (bs ! bid_idx f), sell_agent_id = agent_id (as ! ask_idx f),
      Trade.instrument_id = instrument_id (bs ! bid_idx f),
      Trade.price = dmul (dadd (price (bs ! bid_idx f)) (price (as ! ask_idx f))) (Fin 0.5),
      Trade.volume = fill_vol f, Trade.timestamp = current_tick\<rparr>"

text \<open>
  The volumes of the trades against the bid (the ask) of index \<open>i\<close>, in the order of the
  trades: \<open>fs\<close> is a trace and \<open>ts\<close> the trades of its entries.
\<close>

definition bid_volumes :: "fill list \<Rightarrow> Trade list \<Rightarrow> nat \<Rightarrow> cint list" where
  "bid_volumes fs ts i =
     map (\<lambda>p. Trade.volume (snd p)) (filter (\<lambda>p. bid_idx (fst p) = i) (zip fs ts))"

definition ask_volumes :: "fill list \<Rightarrow> Trade list \<Rightarrow> nat \<Rightarrow> cint list" where
  "ask_volumes fs ts i =
     map (\<lambda>p. Trade.volume (snd p)) (filter (\<lambda>p. ask_idx (fst p) = i) (zip fs ts))"

text \<open>
  The life of one order \<open>x\<close> in a book, from the call of \<^verbatim>\<open>add_order\<close> that puts it there
  (no order of the book has its id), through the later calls of \<^verbatim>\<open>add_order\<close> for orders
  with other ids and the calls of \<^verbatim>\<open>match_orders\<close>. The number that goes with the book is
  the sum of the volumes of all the trades so far against the orders with the id of \<open>x\<close>:
  each call of \<^verbatim>\<open>match_orders\<close> adds the volumes of its trades against them.
\<close>

definition executed_against :: "cint \<Rightarrow> std_sort \<Rightarrow> cint \<Rightarrow> OrderBook \<Rightarrow> int" where
  "executed_against uid srt current_tick ob =
     (\<Sum>i\<leftarrow>[0..<length (bids (sorted_book srt ob))].
        if order_id (bids (sorted_book srt ob) ! i) = uid
        then sum_list (map sint (bid_volumes (pass_fills srt ob)
                                   (fst (match_orders srt current_tick ob)) i))
        else 0) +
     (\<Sum>i\<leftarrow>[0..<length (asks (sorted_book srt ob))].
        if order_id (asks (sorted_book srt ob) ! i) = uid
        then sum_list (map sint (ask_volumes (pass_fills srt ob)
                                   (fst (match_orders srt current_tick ob)) i))
        else 0)"

inductive order_life :: "std_sort \<Rightarrow> Order \<Rightarrow> OrderBook \<Rightarrow> int \<Rightarrow> bool"
  for srt :: std_sort and x :: Order where
  submitted: "\<forall>y \<in> set (bids ob) \<union> set (asks ob). order_id y \<noteq> order_id x \<Longrightarrow>
              order_life srt x (add_order x ob) 0"
| other: "order_life srt x ob e \<Longrightarrow> order_id y \<noteq> order_id x \<Longrightarrow>
          order_life srt x (add_order y ob) e"
| pass: "order_life srt x ob e \<Longrightarrow>
         order_life srt x (snd (match_orders srt current_tick ob))
           (e + executed_against (order_id x) srt current_tick ob)"

text \<open>The sizes of the volumes of the orders of a list that have the id \<open>uid\<close>, summed.\<close>

definition held :: "cint \<Rightarrow> Order list \<Rightarrow> int" where
  "held uid xs = (\<Sum>x\<leftarrow>xs. if order_id x = uid then \<bar>sint (volume x)\<bar> else 0)"

text \<open>The books that the calls of \<^verbatim>\<open>add_order\<close> and \<^verbatim>\<open>match_orders\<close> reach from a new book.\<close>

inductive reachable_book :: "std_sort \<Rightarrow> OrderBook \<Rightarrow> bool" for srt :: std_sort where
  new: "reachable_book srt OrderBook_new"
| add: "reachable_book srt ob \<Longrightarrow> reachable_book srt (add_order order ob)"
| match: "reachable_book srt ob \<Longrightarrow> reachable_book srt (snd (match_orders srt current_tick ob))"

text \<open>A sequence of calls of \<^verbatim>\<open>submit_order\<close>, in the order of the list.\<close>

definition submit_all :: "Order list \<Rightarrow> Exchange \<Rightarrow> Exchange" where
  "submit_all orders ex = foldl (\<lambda>e order. submit_order order e) ex orders"

text \<open>The orders that these calls have put on the queue, with the ids they were given.\<close>

definition submitted :: "Order list \<Rightarrow> Exchange \<Rightarrow> Order list" where
  "submitted orders ex = drop (length (pending_orders ex)) (pending_orders (submit_all orders ex))"

text \<open>Every order of a list, and every resting order of a book, has a positive volume.\<close>

definition positive_volumes :: "Order list \<Rightarrow> bool" where
  "positive_volumes xs \<longleftrightarrow> (\<forall>x \<in> set xs. 0 <s volume x)"

definition positive_book :: "OrderBook \<Rightarrow> bool" where
  "positive_book ob \<longleftrightarrow> positive_volumes (bids ob) \<and> positive_volumes (asks ob)"

text \<open>
  The exchanges that \<^verbatim>\<open>submit_order\<close> and \<^verbatim>\<open>process_orders\<close> reach from a new exchange when
  every submitted order has a positive volume.
\<close>

inductive positive_run :: "std_sort \<Rightarrow> Exchange \<Rightarrow> bool" for srt :: std_sort where
  start: "Exchange_new rank' num_instruments' = Some ex \<Longrightarrow> positive_run srt ex"
| submit: "positive_run srt ex \<Longrightarrow> 0 <s volume order \<Longrightarrow>
           positive_run srt (submit_order order ex)"
| process: "positive_run srt ex \<Longrightarrow>
            positive_run srt (snd (process_orders srt current_tick ex))"

text \<open>A book is not crossed: a side is empty, or every bid is below every ask.\<close>

definition no_cross :: "OrderBook \<Rightarrow> bool" where
  "no_cross ob \<longleftrightarrow>
     bids ob = [] \<or> asks ob = [] \<or>
     (\<forall>b \<in> set (bids ob). \<forall>a \<in> set (asks ob). dlt (price b) (price a))"

text \<open>
  The arithmetic mean of the specification, of real numbers and exact: the sum divided by
  the count.
\<close>

definition arithmetic_mean :: "real list \<Rightarrow> real" where
  "arithmetic_mean xs = sum_list xs / real (length xs)"

section \<open>Properties of doubles\<close>

lemma rne_of_int [simp]: "rne (of_int n) = n"
  by (simp add: rne_def)

lemma fl_exact:
  assumes "is_double x"
  shows "fl x = Fin x"
proof -
  from assms obtain m e where x: "x = of_int m * 2 powi e" and m: "\<bar>m\<bar> < 2 ^ 53"
    and e: "- 1074 \<le> e" "e \<le> 971"
    by (auto simp: is_double_def)
  define K where "K = nat (e + 1074)"
  have pe: "(2::real) powi e = 2 ^ K / 2 ^ 1074"
  proof -
    have "e = int K - 1074" using e by (simp add: K_def)
    then have "(2::real) powi e = 2 powi (int K - 1074)" by simp
    also have "\<dots> = 2 powi (int K) / 2 powi 1074" by (simp add: power_int_diff)
    finally show ?thesis by simp
  qed
  have K: "K \<le> 2045" using e by (simp add: K_def)
  define Y where "Y = \<bar>m\<bar> * 2 ^ K"
  have y: "\<bar>x\<bar> * 2 ^ 1074 = of_int Y"
    by (simp add: x pe Y_def abs_mult)
  have Y0: "0 \<le> Y" by (simp add: Y_def)
  have "Y < 2 ^ 53 * 2 ^ K" unfolding Y_def using m by simp
  then have "Y < 2 ^ (53 + K)" by (simp only: power_add)
  then have "Y < 2 ^ nat (int (53 + K))" by (simp only: nat_int)
  then have "bitlen Y \<le> int (53 + K)"
    using Y0 by (subst bitlen_le_iff_power) simp_all
  then have j: "nat (bitlen Y - 53) \<le> K" by simp
  define j where "j = nat (bitlen Y - 53)"
  have jK: "j \<le> K" using j by (simp add: j_def)
  have q: "real_of_int Y / 2 ^ j = of_int (\<bar>m\<bar> * 2 ^ (K - j))"
  proof -
    have "(2::real) ^ K = 2 ^ (K - j) * 2 ^ j"
      using jK by (simp add: power_add [symmetric])
    then show ?thesis by (simp add: Y_def)
  qed
  have r: "real_of_int (rne (real_of_int Y / 2 ^ j)) * 2 ^ j / 2 ^ 1074 = \<bar>x\<bar>"
  proof -
    have "real_of_int (rne (real_of_int Y / 2 ^ j)) * 2 ^ j
          = real_of_int \<bar>m\<bar> * (2 ^ (K - j) * 2 ^ j)"
      unfolding q rne_of_int by simp
    also have "\<dots> = real_of_int \<bar>m\<bar> * 2 ^ K"
      using jK by (simp add: power_add [symmetric])
    finally show ?thesis by (simp add: x pe abs_mult)
  qed
  have bound: "\<bar>x\<bar> < 2 ^ 1024"
  proof -
    have "real_of_int \<bar>m\<bar> < 2 ^ 53" using m by (simp add: of_int_less_numeral_power_cancel_iff)
    moreover have "(2::real) powi e \<le> 2 powi 971"
      using e by (intro power_int_increasing) simp_all
    moreover have "(0::real) < 2 powi e" by simp
    ultimately have "real_of_int \<bar>m\<bar> * 2 powi e < 2 ^ 53 * 2 powi 971"
      by (intro mult_less_le_imp_less) simp_all
    then show ?thesis by (simp add: x abs_mult)
  qed
  have "fl x = (if 2 ^ 1024 \<le> \<bar>x\<bar> then (if 0 < x then PInf else NInf)
                else Fin (if 0 \<le> x then \<bar>x\<bar> else - \<bar>x\<bar>))"
    unfolding fl_def Let_def y floor_of_int j_def [symmetric] r ..
  then show ?thesis using bound by simp
qed

lemma is_double_of_int: "\<bar>n\<bar> < 2 ^ 53 \<Longrightarrow> is_double (of_int n)"
  unfolding is_double_def by (rule exI [of _ n], rule exI [of _ 0]) simp

lemma fl_of_int: "\<bar>n\<bar> < 2 ^ 53 \<Longrightarrow> fl (of_int n) = Fin (of_int n)"
  by (rule fl_exact) (rule is_double_of_int)

lemma fl_numeral [simp]: "numeral k < (2::int) ^ 53 \<Longrightarrow> fl (numeral k) = Fin (numeral k)"
  using fl_of_int [of "numeral k"] by simp

lemma fl_neg_numeral [simp]:
  "numeral k < (2::int) ^ 53 \<Longrightarrow> fl (- numeral k) = Fin (- numeral k)"
  using fl_of_int [of "- numeral k"] by simp

lemma fl_zero [simp]: "fl 0 = Fin 0"
  using fl_of_int [of 0] by simp

lemma fl_one [simp]: "fl 1 = Fin 1"
  using fl_of_int [of 1] by simp

lemma fl_real [simp]: "n < 2 ^ 53 \<Longrightarrow> fl (real n) = Fin (real n)"
  using fl_of_int [of "int n"] by simp


text \<open>
  The rounding of a positive real that lies between \<open>2\<^sup>5\<^sup>2 * 2\<^sup>k\<close> and \<open>2\<^sup>5\<^sup>3 * 2\<^sup>k\<close>:
  to a multiple of \<open>2\<^sup>k\<close>.
\<close>

lemma fl_scaled:
  assumes x: "0 \<le> x" and q: "x = q * 2 ^ K / 2 ^ 1074"
    and lo: "2 ^ 52 \<le> q \<or> K = 0" and hi: "q < 2 ^ 53" and q0: "0 \<le> q"
    and fin: "of_int (rne q) * 2 ^ K / 2 ^ 1074 < (2 ^ 1024 :: real)"
  shows "fl x = Fin (of_int (rne q) * 2 ^ K / 2 ^ 1074)"
proof -
  let ?y = "\<bar>x\<bar> * 2 ^ 1074"
  have y: "?y = q * 2 ^ K" using x q by simp
  have ub: "\<lfloor>?y\<rfloor> < 2 ^ (53 + K)"
  proof -
    have "?y < 2 ^ 53 * 2 ^ K" using hi y by simp
    then have "?y < 2 ^ (53 + K)" by (simp add: power_add)
    then have "of_int \<lfloor>?y\<rfloor> < (2 ^ (53 + K) :: real)"
      using of_int_floor_le [of ?y] by linarith
    then show ?thesis by (metis of_int_less_numeral_power_cancel_iff)
  qed
  then have b1: "bitlen \<lfloor>?y\<rfloor> \<le> 53 + int K"
    by (simp add: bitlen_le_iff_power nat_add_distrib)
  have j: "nat (bitlen \<lfloor>?y\<rfloor> - 53) = K"
  proof (cases "K = 0")
    case True
    then show ?thesis using b1 by simp
  next
    case False
    then have "2 ^ 52 \<le> q" using lo by simp
    then have "2 ^ 52 * 2 ^ K \<le> ?y" using y by simp
    then have "(2 ^ (52 + K) :: real) \<le> ?y" by (simp add: power_add)
    then have "of_int (2 ^ (52 + K)) \<le> ?y" by simp
    then have "2 ^ (52 + K) \<le> \<lfloor>?y\<rfloor>" by (simp only: le_floor_iff)
    then have "53 + int K \<le> bitlen \<lfloor>?y\<rfloor>"
      by (simp add: bitlen_ge_iff_power nat_add_distrib)
    then show ?thesis using b1 by simp
  qed
  have "?y / 2 ^ K = q" using y by simp
  then show ?thesis
    using fin x unfolding fl_def Let_def j by simp
qed

lemma fl_round:
  assumes x: "x = q * 2 powi k" and k: "- 1074 \<le> k"
    and lo: "2 ^ 52 \<le> q" and hi: "q < 2 ^ 53"
    and fin: "of_int (rne q) * 2 powi k < (2 ^ 1024 :: real)"
  shows "fl x = Fin (of_int (rne q) * 2 powi k)"
proof -
  define K where "K = nat (k + 1074)"
  have pk: "(2::real) powi k = 2 ^ K / 2 ^ 1074"
  proof -
    have "k = int K - 1074" using k by (simp add: K_def)
    then have "(2::real) powi k = 2 powi (int K - 1074)" by simp
    also have "\<dots> = 2 powi (int K) / 2 powi 1074" by (simp add: power_int_diff)
    finally show ?thesis by simp
  qed
  have q0: "0 \<le> q" using lo by (smt (verit) zero_less_power)
  have "fl x = Fin (of_int (rne q) * 2 ^ K / 2 ^ 1074)"
  proof (rule fl_scaled)
    show "0 \<le> x" using q0 by (simp add: x)
    show "x = q * 2 ^ K / 2 ^ 1074" by (simp add: x pk)
    show "2 ^ 52 \<le> q \<or> K = 0" using lo by simp
    show "q < 2 ^ 53" by (rule hi)
    show "0 \<le> q" by (rule q0)
    show "real_of_int (rne q) * 2 ^ K / 2 ^ 1074 < 2 ^ 1024" using fin by (simp add: pk)
  qed
  then show ?thesis by (simp add: pk)
qed

lemma fl_301_thirds: "fl (301 / 3) = Fin (7060330665825621 / 70368744177664)"
proof -
  have "fl (301 / 3) = Fin (of_int (rne (301 * 2 ^ 46 / 3)) * 2 powi (- 46))"
    by (rule fl_round) (simp_all add: rne_def power_int_minus)
  also have "rne (301 * 2 ^ 46 / 3) = 7060330665825621"
    by (simp add: rne_def)
  finally show ?thesis by (simp add: power_int_minus field_simps)
qed

lemma fl_200_less_ulp: "fl (200 - 1 / 2 ^ 46) = Fin 200"
proof -
  have "fl (200 - 1 / 2 ^ 46) = Fin (of_int (rne (200 * 2 ^ 45 - 1 / 2)) * 2 powi (- 45))"
    by (rule fl_round) (simp_all add: rne_def power_int_minus)
  also have "rne (200 * 2 ^ 45 - 1 / 2) = 200 * 2 ^ 45"
    by (simp add: rne_def)
  finally show ?thesis by (simp add: power_int_minus field_simps)
qed

section \<open>The order of the doubles\<close>

lemma dlt_irrefl [simp]: "\<not> dlt a a"
  by (cases a) simp_all

lemma dlt_asym: "dlt a b \<Longrightarrow> \<not> dlt b a"
  by (cases a; cases b) simp_all

lemma dlt_trans: "dlt a b \<Longrightarrow> dlt b c \<Longrightarrow> dlt a c"
  by (cases a; cases b; cases c) simp_all

lemma dlt_negtrans: "b \<noteq> NaN \<Longrightarrow> \<not> dlt a b \<Longrightarrow> \<not> dlt b c \<Longrightarrow> \<not> dlt a c"
  by (cases a; cases b; cases c) simp_all

lemma dlt_le_trans: "c \<noteq> NaN \<Longrightarrow> dlt a b \<Longrightarrow> \<not> dlt c b \<Longrightarrow> dlt a c"
  by (cases a; cases b; cases c) simp_all

lemma le_dlt_trans: "a \<noteq> NaN \<Longrightarrow> \<not> dlt b a \<Longrightarrow> dlt b c \<Longrightarrow> dlt a c"
  by (cases a; cases b; cases c) simp_all

lemma dlt_total: "a \<noteq> NaN \<Longrightarrow> b \<noteq> NaN \<Longrightarrow> dlt a b \<or> a = b \<or> dlt b a"
  by (cases a; cases b) auto

lemma dne_iff: "a \<noteq> NaN \<Longrightarrow> dne a b \<longleftrightarrow> a \<noteq> b"
  by (auto simp: dne_def)

section \<open>Properties of the matching loop\<close>

lemma match_loop_unfold:
  "match_loop t ob bi ai ts =
     (if crossing ob bi ai
      then match_loop t (fill_book ob bi ai) (next_bi ob bi ai) (next_ai ob bi ai)
             (ts @ [trade_at t ob bi ai])
      else (ob, bi, ai, ts))"
  by (subst match_loop.simps)
     (simp add: crossing_def fill_book_def next_bi_def next_ai_def trade_at_def fill_volume_def Let_def)

lemmas loop_eval = crossing_def fill_book_def next_bi_def next_ai_def trade_at_def
  fill_volume_def std_min_def word_sless_alt word_sle_eq

lemma next_progress: "next_bi ob bi ai = bi + 1 \<or> next_ai ob bi ai = ai + 1"
  by (auto simp: next_bi_def next_ai_def fill_volume_def std_min_def)

lemma next_bi_bounds: "bi \<le> next_bi ob bi ai \<and> next_bi ob bi ai \<le> bi + 1"
  by (simp add: next_bi_def)

lemma next_ai_bounds: "ai \<le> next_ai ob bi ai \<and> next_ai ob bi ai \<le> ai + 1"
  by (simp add: next_ai_def)

lemma fill_book_lengths [simp]:
  "length (bids (fill_book ob bi ai)) = length (bids ob)"
  "length (asks (fill_book ob bi ai)) = length (asks ob)"
  by (simp_all add: fill_book_def)

lemma match_loop_induct [consumes 0, case_names step]:
  assumes "\<And>ob bi ai ts.
     (crossing ob bi ai \<Longrightarrow>
        P (fill_book ob bi ai) (next_bi ob bi ai) (next_ai ob bi ai) (ts @ [trade_at t ob bi ai]))
     \<Longrightarrow> P ob bi ai ts"
  shows "P ob bi ai ts"
proof (induction "(length (bids ob) - bi) + (length (asks ob) - ai)" arbitrary: ob bi ai ts rule: less_induct)
  case (less ob bi ai ts)
  show ?case
  proof (rule assms)
    assume c: "crossing ob bi ai"
    show "P (fill_book ob bi ai) (next_bi ob bi ai) (next_ai ob bi ai) (ts @ [trade_at t ob bi ai])"
    proof (rule less)
      show "length (bids (fill_book ob bi ai)) - next_bi ob bi ai +
            (length (asks (fill_book ob bi ai)) - next_ai ob bi ai)
            < length (bids ob) - bi + (length (asks ob) - ai)"
        using c next_progress [of ob bi ai] next_bi_bounds [of bi ob ai] next_ai_bounds [of ai ob bi]
        by (auto simp: crossing_def)
    qed
  qed
qed


lemma map_update_same:
  "f y = f (xs ! i) \<Longrightarrow> map f (xs[i := y]) = map f xs"
  by (cases "i < length xs") (auto simp: list_eq_iff_nth_eq nth_list_update)

lemma match_loop_keeps:
  assumes f: "\<And>(x::Order) v. f (x\<lparr>volume := v\<rparr>) = f x"
  shows "match_loop t ob bi ai ts = (ob2, bi2, ai2, ts2) \<Longrightarrow>
         map f (bids ob2) = map f (bids ob) \<and> map f (asks ob2) = map f (asks ob)"
proof (induction ob bi ai ts rule: match_loop_induct [where t = t])
  case (step ob bi ai ts)
  show ?case
  proof (cases "crossing ob bi ai")
    case True
    then have "match_loop t (fill_book ob bi ai) (next_bi ob bi ai) (next_ai ob bi ai)
                 (ts @ [trade_at t ob bi ai]) = (ob2, bi2, ai2, ts2)"
      using step.prems by (subst (asm) match_loop_unfold) simp
    from step.IH [OF True this]
    have "map f (bids ob2) = map f (bids (fill_book ob bi ai))"
      and "map f (asks ob2) = map f (asks (fill_book ob bi ai))" by simp_all
    moreover have "map f (bids (fill_book ob bi ai)) = map f (bids ob)"
      by (simp add: fill_book_def map_update_same f)
    moreover have "map f (asks (fill_book ob bi ai)) = map f (asks ob)"
      by (simp add: fill_book_def map_update_same f)
    ultimately show ?thesis by simp
  next
    case False
    then show ?thesis using step.prems by (subst (asm) match_loop_unfold) simp
  qed
qed

lemma match_loop_exit:
  "match_loop t ob bi ai ts = (ob2, bi2, ai2, ts2) \<Longrightarrow>
   \<not> crossing ob2 bi2 ai2 \<and> bi \<le> bi2 \<and> ai \<le> ai2 \<and>
   length (bids ob2) = length (bids ob) \<and> length (asks ob2) = length (asks ob)"
proof (induction ob bi ai ts rule: match_loop_induct [where t = t])
  case (step ob bi ai ts)
  show ?case
  proof (cases "crossing ob bi ai")
    case True
    then have "match_loop t (fill_book ob bi ai) (next_bi ob bi ai) (next_ai ob bi ai)
                 (ts @ [trade_at t ob bi ai]) = (ob2, bi2, ai2, ts2)"
      using step.prems by (subst (asm) match_loop_unfold) simp
    from step.IH [OF True this] next_bi_bounds [of bi ob ai] next_ai_bounds [of ai ob bi]
    show ?thesis by simp
  next
    case False
    then show ?thesis using step.prems by (subst (asm) match_loop_unfold) auto
  qed
qed

lemma bid_sorted_prices:
  "sorted_by bid_cmp xs \<Longrightarrow> i \<le> j \<Longrightarrow> j < length xs \<Longrightarrow>
   \<not> dlt (price (xs ! i)) (price (xs ! j))"
proof -
  assume s: "sorted_by bid_cmp xs" and ij: "i \<le> j" "j < length xs"
  show ?thesis
  proof (cases "i = j")
    case False
    then have "i < j" using ij by simp
    then have "\<not> bid_cmp (xs ! j) (xs ! i)"
      using s ij sorted_wrt_nth_less [of "\<lambda>a b. \<not> bid_cmp b a" xs i j]
      by (simp add: sorted_by_def)
    then show ?thesis by (cases "price (xs ! i) = price (xs ! j)") (simp_all add: bid_cmp_def dne_def dgt_def split: if_splits)
  qed simp
qed

lemma ask_sorted_prices:
  "sorted_by ask_cmp xs \<Longrightarrow> i \<le> j \<Longrightarrow> j < length xs \<Longrightarrow>
   \<not> dlt (price (xs ! j)) (price (xs ! i))"
proof -
  assume s: "sorted_by ask_cmp xs" and ij: "i \<le> j" "j < length xs"
  show ?thesis
  proof (cases "i = j")
    case False
    then have "i < j" using ij by simp
    then have "\<not> ask_cmp (xs ! j) (xs ! i)"
      using s ij sorted_wrt_nth_less [of "\<lambda>a b. \<not> ask_cmp b a" xs i j]
      by (simp add: sorted_by_def)
    then show ?thesis by (cases "price (xs ! i) = price (xs ! j)") (simp_all add: ask_cmp_def dne_def split: if_splits)
  qed simp
qed

lemma no_nan_nth: "no_nan xs \<Longrightarrow> i < length xs \<Longrightarrow> price (xs ! i) \<noteq> NaN"
  by (simp add: no_nan_def)

lemma no_nan_mset: "mset xs = mset ys \<Longrightarrow> no_nan xs = no_nan ys"
  by (drule mset_eq_setD) (simp add: no_nan_def)

lemma match_loop_no_cross:
  assumes sb: "sorted_by bid_cmp (bids ob)" and sa: "sorted_by ask_cmp (asks ob)"
    and nb: "no_nan (bids ob)" and na: "no_nan (asks ob)"
    and m: "match_loop t ob 0 0 [] = (ob2, bi2, ai2, ts2)"
  shows "no_cross (ob2\<lparr>bids := drop bi2 (bids ob2), asks := drop ai2 (asks ob2)\<rparr>)"
proof (cases "bi2 < length (bids ob2) \<and> ai2 < length (asks ob2)")
  case False
  then show ?thesis by (auto simp: no_cross_def)
next
  case True
  from match_loop_exit [OF m]
  have nc: "\<not> crossing ob2 bi2 ai2"
    and lb: "length (bids ob2) = length (bids ob)" and la: "length (asks ob2) = length (asks ob)"
    by simp_all
  have keep: "map price (bids ob2) = map price (bids ob)" "map price (asks ob2) = map price (asks ob)"
    using match_loop_keeps [of price, OF _ m] by simp_all
  have pb: "price (bids ob2 ! j) = price (bids ob ! j)" if "j < length (bids ob)" for j
    using that keep(1) lb by (metis nth_map)
  have pa: "price (asks ob2 ! j) = price (asks ob ! j)" if "j < length (asks ob)" for j
    using that keep(2) la by (metis nth_map)
  have top: "dlt (price (bids ob2 ! bi2)) (price (asks ob2 ! ai2))"
    using nc True by (simp add: crossing_def)
  have b: "\<not> dlt (price (bids ob2 ! bi2)) (price x) \<and> price x \<noteq> NaN"
    if "x \<in> set (drop bi2 (bids ob2))" for x
  proof -
    from that obtain k where k: "k < length (bids ob2) - bi2" "x = drop bi2 (bids ob2) ! k"
      by (auto simp: in_set_conv_nth)
    then have "price x = price (bids ob2 ! (bi2 + k))" by simp
    also have "\<dots> = price (bids ob ! (bi2 + k))" using k lb by (simp add: pb)
    finally have x: "price x = price (bids ob ! (bi2 + k))" .
    have "\<not> dlt (price (bids ob ! bi2)) (price (bids ob ! (bi2 + k)))"
      using bid_sorted_prices [OF sb, of bi2 "bi2 + k"] k lb by simp
    moreover have "price (bids ob ! bi2) = price (bids ob2 ! bi2)" using True lb by (simp add: pb)
    moreover have "price (bids ob ! (bi2 + k)) \<noteq> NaN"
      using no_nan_nth [OF nb, of "bi2 + k"] k lb by simp
    ultimately show ?thesis using x by simp
  qed
  have a: "\<not> dlt (price x) (price (asks ob2 ! ai2)) \<and> price x \<noteq> NaN"
    if "x \<in> set (drop ai2 (asks ob2))" for x
  proof -
    from that obtain k where k: "k < length (asks ob2) - ai2" "x = drop ai2 (asks ob2) ! k"
      by (auto simp: in_set_conv_nth)
    then have "price x = price (asks ob2 ! (ai2 + k))" by simp
    also have "\<dots> = price (asks ob ! (ai2 + k))" using k la by (simp add: pa)
    finally have x: "price x = price (asks ob ! (ai2 + k))" .
    have "\<not> dlt (price (asks ob ! (ai2 + k))) (price (asks ob ! ai2))"
      using ask_sorted_prices [OF sa, of ai2 "ai2 + k"] k la by simp
    moreover have "price (asks ob ! ai2) = price (asks ob2 ! ai2)" using True la by (simp add: pa)
    moreover have "price (asks ob ! (ai2 + k)) \<noteq> NaN"
      using no_nan_nth [OF na, of "ai2 + k"] k la by simp
    ultimately show ?thesis using x by simp
  qed
  have "dlt (price x) (price y)"
    if "x \<in> set (drop bi2 (bids ob2))" and "y \<in> set (drop ai2 (asks ob2))" for x y
  proof -
    have "dlt (price x) (price (asks ob2 ! ai2))"
      using le_dlt_trans [of "price x" "price (bids ob2 ! bi2)"] b [OF that(1)] top by blast
    then show ?thesis
      using dlt_le_trans [of "price y" "price x" "price (asks ob2 ! ai2)"] a [OF that(2)] by blast
  qed
  then show ?thesis by (simp add: no_cross_def)
qed

lemma match_orders_no_cross:
  assumes "is_std_sort srt" and "no_nan (bids ob)" and "no_nan (asks ob)"
  shows "no_cross (snd (match_orders srt t ob))"
proof -
  let ?ob1 = "ob\<lparr>bids := srt bid_cmp (bids ob), asks := srt ask_cmp (asks ob)\<rparr>"
  obtain ob2 bi2 ai2 ts2 where m: "match_loop t ?ob1 0 0 [] = (ob2, bi2, ai2, ts2)"
    by (metis prod_cases4)
  have s: "sorted_by bid_cmp (bids ?ob1)" "sorted_by ask_cmp (asks ?ob1)"
    using assms by (simp_all add: is_std_sort_def)
  have "mset (srt bid_cmp (bids ob)) = mset (bids ob)" "mset (srt ask_cmp (asks ob)) = mset (asks ob)"
    using assms(1) by (simp_all add: is_std_sort_def)
  then have n: "no_nan (bids ?ob1)" "no_nan (asks ?ob1)"
    using assms(2,3) no_nan_mset [of "srt bid_cmp (bids ob)" "bids ob"]
      no_nan_mset [of "srt ask_cmp (asks ob)" "asks ob"] by simp_all
  from match_loop_no_cross [OF s n m] show ?thesis
    by (simp add: match_orders_def m)
qed

section \<open>The sort\<close>

lemma bid_cmp_asym: "bid_cmp a b \<Longrightarrow> \<not> bid_cmp b a"
  by (cases "price a"; cases "price b")
     (auto simp: bid_cmp_def dne_def dgt_def word_sless_alt split: if_splits)

lemma bid_cmp_negtrans:
  "price a \<noteq> NaN \<Longrightarrow> price b \<noteq> NaN \<Longrightarrow> price c \<noteq> NaN \<Longrightarrow>
   \<not> bid_cmp a b \<Longrightarrow> \<not> bid_cmp b c \<Longrightarrow> \<not> bid_cmp a c"
  by (cases "price a"; cases "price b"; cases "price c")
     (auto simp: bid_cmp_def dne_def dgt_def word_sless_alt split: if_splits)

lemma ask_cmp_asym: "ask_cmp a b \<Longrightarrow> \<not> ask_cmp b a"
  by (cases "price a"; cases "price b")
     (auto simp: ask_cmp_def dne_def word_sless_alt split: if_splits)

lemma ask_cmp_negtrans:
  "price a \<noteq> NaN \<Longrightarrow> price b \<noteq> NaN \<Longrightarrow> price c \<noteq> NaN \<Longrightarrow>
   \<not> ask_cmp a b \<Longrightarrow> \<not> ask_cmp b c \<Longrightarrow> \<not> ask_cmp a c"
  by (cases "price a"; cases "price b"; cases "price c")
     (auto simp: ask_cmp_def dne_def word_sless_alt split: if_splits)

lemma set_unguarded_linear_insert [simp]:
  "set (unguarded_linear_insert cmp v ps) = insert v (set ps)"
  by (induction ps) auto

lemma mset_unguarded_linear_insert [simp]:
  "mset (unguarded_linear_insert cmp v ps) = add_mset v (mset ps)"
  by (induction ps) auto

lemma mset_linear_insert [simp]: "mset (linear_insert cmp ps v) = add_mset v (mset ps)"
  by (simp add: linear_insert_def)

lemma mset_foldl_linear_insert:
  "mset (foldl (linear_insert cmp) acc xs) = mset acc + mset xs"
  by (induction xs arbitrary: acc) simp_all

lemma mset_insertion_sort: "mset (insertion_sort cmp xs) = mset xs"
  by (cases xs) (simp_all add: mset_foldl_linear_insert)

lemma sorted_unguarded_linear_insert:
  assumes asym: "\<And>a b. cmp a b \<Longrightarrow> \<not> cmp b a"
    and negtrans: "\<And>a b c. price a \<noteq> NaN \<Longrightarrow> price b \<noteq> NaN \<Longrightarrow> price c \<noteq> NaN \<Longrightarrow>
                     \<not> cmp a b \<Longrightarrow> \<not> cmp b c \<Longrightarrow> \<not> cmp a c"
  shows "sorted_wrt (\<lambda>a b. \<not> cmp a b) ps \<Longrightarrow> no_nan (v # ps) \<Longrightarrow>
         sorted_wrt (\<lambda>a b. \<not> cmp a b) (unguarded_linear_insert cmp v ps)"
proof (induction ps)
  case Nil
  then show ?case by simp
next
  case (Cons p ps)
  show ?case
  proof (cases "cmp v p")
    case True
    have "sorted_wrt (\<lambda>a b. \<not> cmp a b) (unguarded_linear_insert cmp v ps)"
      using Cons by (simp add: no_nan_def)
    moreover have "\<not> cmp p v" using asym [OF True] .
    ultimately show ?thesis using True Cons.prems(1) by simp
  next
    case False
    have "\<not> cmp v y" if "y \<in> set ps" for y
    proof -
      have "\<not> cmp p y" using Cons.prems(1) that by simp
      moreover have "price v \<noteq> NaN" "price p \<noteq> NaN" "price y \<noteq> NaN"
        using Cons.prems(2) that by (simp_all add: no_nan_def)
      ultimately show ?thesis using negtrans [of v p y] False by blast
    qed
    then show ?thesis using False Cons.prems(1) by simp
  qed
qed

lemma sorted_linear_insert:
  assumes asym: "\<And>a b. cmp a b \<Longrightarrow> \<not> cmp b a"
    and negtrans: "\<And>a b c. price a \<noteq> NaN \<Longrightarrow> price b \<noteq> NaN \<Longrightarrow> price c \<noteq> NaN \<Longrightarrow>
                     \<not> cmp a b \<Longrightarrow> \<not> cmp b c \<Longrightarrow> \<not> cmp a c"
    and s: "sorted_by cmp ps" and ne: "ps \<noteq> []" and n: "no_nan (v # ps)"
  shows "sorted_by cmp (linear_insert cmp ps v)"
proof (cases "cmp v (hd ps)")
  case True
  have irrefl: "\<not> cmp y y" for y using asym by blast
  have "\<not> cmp y v" if "y \<in> set ps" for y
  proof -
    obtain h hs where ps: "ps = h # hs" using ne by (cases ps) auto
    have "\<not> cmp y h" using s that irrefl by (auto simp: ps sorted_by_def)
    moreover have "\<not> cmp h v" using asym True by (simp add: ps)
    moreover have "price y \<noteq> NaN" "price h \<noteq> NaN" "price v \<noteq> NaN"
      using n that by (auto simp: no_nan_def ps)
    ultimately show ?thesis using negtrans [of y h v] by blast
  qed
  then show ?thesis using True s by (simp add: linear_insert_def sorted_by_def)
next
  case False
  have r: "sorted_wrt (\<lambda>a b. \<not> cmp a b) (rev ps)"
    using s by (simp add: sorted_by_def sorted_wrt_rev)
  have nr: "no_nan (v # rev ps)" using n by (simp add: no_nan_def)
  have "sorted_wrt (\<lambda>a b. \<not> cmp a b) (unguarded_linear_insert cmp v (rev ps))"
  proof (rule sorted_unguarded_linear_insert [where cmp = cmp])
    show "\<not> cmp b a" if "cmp a b" for a b using that by (rule asym)
    show "\<not> cmp a c"
      if "price a \<noteq> NaN" "price b \<noteq> NaN" "price c \<noteq> NaN" "\<not> cmp a b" "\<not> cmp b c" for a b c
      using that by (rule negtrans)
  qed (rule r, rule nr)
  then show ?thesis using False by (simp add: linear_insert_def sorted_by_def sorted_wrt_rev)
qed

lemma sorted_foldl_linear_insert:
  assumes asym: "\<And>a b. cmp a b \<Longrightarrow> \<not> cmp b a"
    and negtrans: "\<And>a b c. price a \<noteq> NaN \<Longrightarrow> price b \<noteq> NaN \<Longrightarrow> price c \<noteq> NaN \<Longrightarrow>
                     \<not> cmp a b \<Longrightarrow> \<not> cmp b c \<Longrightarrow> \<not> cmp a c"
  shows "sorted_by cmp acc \<Longrightarrow> acc \<noteq> [] \<Longrightarrow> no_nan (acc @ xs) \<Longrightarrow>
         sorted_by cmp (foldl (linear_insert cmp) acc xs)"
proof (induction xs arbitrary: acc)
  case Nil
  then show ?case by simp
next
  case (Cons x xs)
  have n1: "no_nan (x # acc)" using Cons.prems(3) by (auto simp: no_nan_def)
  have s: "sorted_by cmp (linear_insert cmp acc x)"
  proof (rule sorted_linear_insert [where cmp = cmp])
    show "\<not> cmp b a" if "cmp a b" for a b using that by (rule asym)
    show "\<not> cmp a c"
      if "price a \<noteq> NaN" "price b \<noteq> NaN" "price c \<noteq> NaN" "\<not> cmp a b" "\<not> cmp b c" for a b c
      using that by (rule negtrans)
  qed (rule Cons.prems(1), rule Cons.prems(2), rule n1)
  have "mset (linear_insert cmp acc x) = add_mset x (mset acc)" by simp
  then have st: "set (linear_insert cmp acc x) = insert x (set acc)"
    by (metis mset_eq_setD set_mset_add_mset_insert set_mset_mset)
  then have ne: "linear_insert cmp acc x \<noteq> []" by auto
  have n2: "no_nan (linear_insert cmp acc x @ xs)"
    using Cons.prems(3) st by (auto simp: no_nan_def)
  show ?case using Cons.IH [OF s ne n2] by simp
qed

lemma sorted_insertion_sort:
  assumes asym: "\<And>a b. cmp a b \<Longrightarrow> \<not> cmp b a"
    and negtrans: "\<And>a b c. price a \<noteq> NaN \<Longrightarrow> price b \<noteq> NaN \<Longrightarrow> price c \<noteq> NaN \<Longrightarrow>
                     \<not> cmp a b \<Longrightarrow> \<not> cmp b c \<Longrightarrow> \<not> cmp a c"
    and n: "no_nan xs"
  shows "sorted_by cmp (insertion_sort cmp xs)"
proof (cases xs)
  case Nil
  then show ?thesis by (simp add: sorted_by_def)
next
  case (Cons y ys)
  have "sorted_by cmp (foldl (linear_insert cmp) [y] ys)"
  proof (rule sorted_foldl_linear_insert [where cmp = cmp])
    show "\<not> cmp b a" if "cmp a b" for a b using that by (rule asym)
    show "\<not> cmp a c"
      if "price a \<noteq> NaN" "price b \<noteq> NaN" "price c \<noteq> NaN" "\<not> cmp a b" "\<not> cmp b c" for a b c
      using that by (rule negtrans)
  qed (use n Cons in \<open>simp_all add: sorted_by_def\<close>)
  then show ?thesis by (simp add: Cons)
qed

lemma insertion_sort_is_std_sort: "is_std_sort insertion_sort"
proof -
  have "sorted_by bid_cmp (insertion_sort bid_cmp xs)" if "no_nan xs" for xs
    by (rule sorted_insertion_sort [OF _ _ that], erule bid_cmp_asym)
       (rule bid_cmp_negtrans, assumption+)
  moreover have "sorted_by ask_cmp (insertion_sort ask_cmp xs)" if "no_nan xs" for xs
    by (rule sorted_insertion_sort [OF _ _ that], erule ask_cmp_asym)
       (rule ask_cmp_negtrans, assumption+)
  ultimately show ?thesis by (simp add: is_std_sort_def mset_insertion_sort)
qed

lemmas sort_eval = linear_insert_def bid_cmp_def ask_cmp_def dne_def dgt_def

section \<open>The book after a matching pass\<close>

text \<open>
  Claim C1, as the specification states it: after \<^verbatim>\<open>match_orders\<close> returns, whatever the book
  it was called on, the bids are empty, or the asks are empty, or the highest remaining bid
  price is strictly below the lowest remaining ask price. It does not hold of a book with
  a NaN price, and \<^verbatim>\<open>submit_order\<close> and \<^verbatim>\<open>add_order\<close> accept every price. Bids at NaN
  (volume 1), 90, NaN and 110 and one ask of 5 at 100: the sort leaves the bids in this
  order, the first bid trades with the ask because \<^verbatim>\<open>NaN < 100\<close> is false, the bid at 90
  stops the loop, and the bid at 110 rests against what is left of the ask at 100.
\<close>

theorem nan_price_leaves_book_crossed:
  "is_std_sort insertion_sort \<and>
   match_orders insertion_sort 7
     \<lparr>bids = [\<lparr>agent_id = 1, instrument_id = 0, price = NaN, volume = 1, is_buy = True,
                timestamp = 0, order_id = 1\<rparr>,
              \<lparr>agent_id = 2, instrument_id = 0, price = Fin 90, volume = 5, is_buy = True,
                timestamp = 1, order_id = 2\<rparr>,
              \<lparr>agent_id = 3, instrument_id = 0, price = NaN, volume = 5, is_buy = True,
                timestamp = 2, order_id = 3\<rparr>,
              \<lparr>agent_id = 4, instrument_id = 0, price = Fin 110, volume = 5, is_buy = True,
                timestamp = 3, order_id = 4\<rparr>],
       asks = [\<lparr>agent_id = 5, instrument_id = 0, price = Fin 100, volume = 5, is_buy = False,
                timestamp = 4, order_id = 5\<rparr>],
       last_price = Fin 100, price_history = [Fin 100]\<rparr>
   = ([\<lparr>buy_agent_id = 1, sell_agent_id = 5, Trade.instrument_id = 0, Trade.price = NaN,
        Trade.volume = 1, Trade.timestamp = 7\<rparr>],
      \<lparr>bids = [\<lparr>agent_id = 2, instrument_id = 0, price = Fin 90, volume = 5, is_buy = True,
                timestamp = 1, order_id = 2\<rparr>,
              \<lparr>agent_id = 3, instrument_id = 0, price = NaN, volume = 5, is_buy = True,
                timestamp = 2, order_id = 3\<rparr>,
              \<lparr>agent_id = 4, instrument_id = 0, price = Fin 110, volume = 5, is_buy = True,
                timestamp = 3, order_id = 4\<rparr>],
       asks = [\<lparr>agent_id = 5, instrument_id = 0, price = Fin 100, volume = 4, is_buy = False,
                timestamp = 4, order_id = 5\<rparr>],
       last_price = NaN, price_history = [Fin 100, NaN]\<rparr>) \<and>
   \<not> no_cross (snd (match_orders insertion_sort 7
     \<lparr>bids = [\<lparr>agent_id = 1, instrument_id = 0, price = NaN, volume = 1, is_buy = True,
                timestamp = 0, order_id = 1\<rparr>,
              \<lparr>agent_id = 2, instrument_id = 0, price = Fin 90, volume = 5, is_buy = True,
                timestamp = 1, order_id = 2\<rparr>,
              \<lparr>agent_id = 3, instrument_id = 0, price = NaN, volume = 5, is_buy = True,
                timestamp = 2, order_id = 3\<rparr>,
              \<lparr>agent_id = 4, instrument_id = 0, price = Fin 110, volume = 5, is_buy = True,
                timestamp = 3, order_id = 4\<rparr>],
       asks = [\<lparr>agent_id = 5, instrument_id = 0, price = Fin 100, volume = 5, is_buy = False,
                timestamp = 4, order_id = 5\<rparr>],
       last_price = Fin 100, price_history = [Fin 100]\<rparr>))"
proof -
  have e: "match_orders insertion_sort 7
     \<lparr>bids = [\<lparr>agent_id = 1, instrument_id = 0, price = NaN, volume = 1, is_buy = True,
                timestamp = 0, order_id = 1\<rparr>,
              \<lparr>agent_id = 2, instrument_id = 0, price = Fin 90, volume = 5, is_buy = True,
                timestamp = 1, order_id = 2\<rparr>,
              \<lparr>agent_id = 3, instrument_id = 0, price = NaN, volume = 5, is_buy = True,
                timestamp = 2, order_id = 3\<rparr>,
              \<lparr>agent_id = 4, instrument_id = 0, price = Fin 110, volume = 5, is_buy = True,
                timestamp = 3, order_id = 4\<rparr>],
       asks = [\<lparr>agent_id = 5, instrument_id = 0, price = Fin 100, volume = 5, is_buy = False,
                timestamp = 4, order_id = 5\<rparr>],
       last_price = Fin 100, price_history = [Fin 100]\<rparr>
   = ([\<lparr>buy_agent_id = 1, sell_agent_id = 5, Trade.instrument_id = 0, Trade.price = NaN,
        Trade.volume = 1, Trade.timestamp = 7\<rparr>],
      \<lparr>bids = [\<lparr>agent_id = 2, instrument_id = 0, price = Fin 90, volume = 5, is_buy = True,
                timestamp = 1, order_id = 2\<rparr>,
              \<lparr>agent_id = 3, instrument_id = 0, price = NaN, volume = 5, is_buy = True,
                timestamp = 2, order_id = 3\<rparr>,
              \<lparr>agent_id = 4, instrument_id = 0, price = Fin 110, volume = 5, is_buy = True,
                timestamp = 3, order_id = 4\<rparr>],
       asks = [\<lparr>agent_id = 5, instrument_id = 0, price = Fin 100, volume = 4, is_buy = False,
                timestamp = 4, order_id = 5\<rparr>],
       last_price = NaN, price_history = [Fin 100, NaN]\<rparr>)"
    by (simp add: match_orders_def sort_eval match_loop_unfold loop_eval)
  show ?thesis unfolding e using insertion_sort_is_std_sort by (simp add: no_cross_def)
qed

text \<open>
  Claim C1, amended. When no price of the book is NaN, then after \<^verbatim>\<open>match_orders\<close> returns,
  whatever order \<^verbatim>\<open>std::sort\<close> gave to the orders it does not separate, the bids are empty,
  or the asks are empty, or every remaining bid price is strictly below every remaining ask
  price: the highest is below the lowest.
\<close>

theorem match_orders_never_crossed:
  assumes "is_std_sort srt" and "no_nan (bids ob)" and "no_nan (asks ob)"
    and "match_orders srt current_tick ob = (trades, ob')"
  shows "bids ob' = [] \<or> asks ob' = [] \<or>
         (\<forall>b \<in> set (bids ob'). \<forall>a \<in> set (asks ob'). dlt (price b) (price a))"
  using match_orders_no_cross [OF assms(1,2,3), of current_tick] assms(4)
  by (simp add: no_cross_def)

theorem match_orders_never_crossed_witness:
  "is_std_sort insertion_sort \<and>
   snd (match_orders insertion_sort 7
     \<lparr>bids = [\<lparr>agent_id = 1, instrument_id = 0, price = Fin 98, volume = 5, is_buy = True,
                timestamp = 1, order_id = 2\<rparr>,
              \<lparr>agent_id = 2, instrument_id = 0, price = Fin 101, volume = 10, is_buy = True,
                timestamp = 0, order_id = 1\<rparr>],
       asks = [\<lparr>agent_id = 3, instrument_id = 0, price = Fin 102, volume = 5, is_buy = False,
                timestamp = 1, order_id = 4\<rparr>,
              \<lparr>agent_id = 4, instrument_id = 0, price = Fin 99, volume = 4, is_buy = False,
                timestamp = 0, order_id = 3\<rparr>],
       last_price = Fin 100, price_history = [Fin 100]\<rparr>)
   = \<lparr>bids = [\<lparr>agent_id = 2, instrument_id = 0, price = Fin 101, volume = 6, is_buy = True,
                timestamp = 0, order_id = 1\<rparr>,
              \<lparr>agent_id = 1, instrument_id = 0, price = Fin 98, volume = 5, is_buy = True,
                timestamp = 1, order_id = 2\<rparr>],
       asks = [\<lparr>agent_id = 3, instrument_id = 0, price = Fin 102, volume = 5, is_buy = False,
                timestamp = 1, order_id = 4\<rparr>],
       last_price = Fin 100, price_history = [Fin 100, Fin 100]\<rparr> \<and>
   dlt (price (bids (snd (match_orders insertion_sort 7
     \<lparr>bids = [\<lparr>agent_id = 1, instrument_id = 0, price = Fin 98, volume = 5, is_buy = True,
                timestamp = 1, order_id = 2\<rparr>,
              \<lparr>agent_id = 2, instrument_id = 0, price = Fin 101, volume = 10, is_buy = True,
                timestamp = 0, order_id = 1\<rparr>],
       asks = [\<lparr>agent_id = 3, instrument_id = 0, price = Fin 102, volume = 5, is_buy = False,
                timestamp = 1, order_id = 4\<rparr>,
              \<lparr>agent_id = 4, instrument_id = 0, price = Fin 99, volume = 4, is_buy = False,
                timestamp = 0, order_id = 3\<rparr>],
       last_price = Fin 100, price_history = [Fin 100]\<rparr>)) ! 0))
     (price (asks (snd (match_orders insertion_sort 7
     \<lparr>bids = [\<lparr>agent_id = 1, instrument_id = 0, price = Fin 98, volume = 5, is_buy = True,
                timestamp = 1, order_id = 2\<rparr>,
              \<lparr>agent_id = 2, instrument_id = 0, price = Fin 101, volume = 10, is_buy = True,
                timestamp = 0, order_id = 1\<rparr>],
       asks = [\<lparr>agent_id = 3, instrument_id = 0, price = Fin 102, volume = 5, is_buy = False,
                timestamp = 1, order_id = 4\<rparr>,
              \<lparr>agent_id = 4, instrument_id = 0, price = Fin 99, volume = 4, is_buy = False,
                timestamp = 0, order_id = 3\<rparr>],
       last_price = Fin 100, price_history = [Fin 100]\<rparr>)) ! 0))"
proof -
  let ?ob = "\<lparr>bids = [\<lparr>agent_id = 1, instrument_id = 0, price = Fin 98, volume = 5, is_buy = True,
                timestamp = 1, order_id = 2\<rparr>,
              \<lparr>agent_id = 2, instrument_id = 0, price = Fin 101, volume = 10, is_buy = True,
                timestamp = 0, order_id = 1\<rparr>],
       asks = [\<lparr>agent_id = 3, instrument_id = 0, price = Fin 102, volume = 5, is_buy = False,
                timestamp = 1, order_id = 4\<rparr>,
              \<lparr>agent_id = 4, instrument_id = 0, price = Fin 99, volume = 4, is_buy = False,
                timestamp = 0, order_id = 3\<rparr>],
       last_price = Fin 100, price_history = [Fin 100]\<rparr>"
  have e: "snd (match_orders insertion_sort 7 ?ob)
     = \<lparr>bids = [\<lparr>agent_id = 2, instrument_id = 0, price = Fin 101, volume = 6, is_buy = True,
                timestamp = 0, order_id = 1\<rparr>,
              \<lparr>agent_id = 1, instrument_id = 0, price = Fin 98, volume = 5, is_buy = True,
                timestamp = 1, order_id = 2\<rparr>],
       asks = [\<lparr>agent_id = 3, instrument_id = 0, price = Fin 102, volume = 5, is_buy = False,
                timestamp = 1, order_id = 4\<rparr>],
       last_price = Fin 100, price_history = [Fin 100, Fin 100]\<rparr>"
    by (simp add: match_orders_def sort_eval match_loop_unfold loop_eval)
  have ne: "bids (snd (match_orders insertion_sort 7 ?ob)) \<noteq> []"
    "asks (snd (match_orders insertion_sort 7 ?ob)) \<noteq> []"
    unfolding e by simp_all
  have nn: "no_nan (bids ?ob)" "no_nan (asks ?ob)" by (simp_all add: no_nan_def)
  from match_orders_never_crossed [OF insertion_sort_is_std_sort nn prod.collapse [symmetric],
      of 7] ne
  have "\<forall>b \<in> set (bids (snd (match_orders insertion_sort 7 ?ob))).
        \<forall>a \<in> set (asks (snd (match_orders insertion_sort 7 ?ob))). dlt (price b) (price a)"
    by blast
  moreover have "bids (snd (match_orders insertion_sort 7 ?ob)) ! 0
                 \<in> set (bids (snd (match_orders insertion_sort 7 ?ob)))"
    "asks (snd (match_orders insertion_sort 7 ?ob)) ! 0
                 \<in> set (asks (snd (match_orders insertion_sort 7 ?ob)))"
    using ne by simp_all
  ultimately have "dlt (price (bids (snd (match_orders insertion_sort 7 ?ob)) ! 0))
                       (price (asks (snd (match_orders insertion_sort 7 ?ob)) ! 0))"
    by blast
  then show ?thesis using insertion_sort_is_std_sort e by blast
qed

section \<open>Queries of the exchange\<close>

lemma valid_instrument_range:
  assumes "valid_instrument obs i"
  shows "0 \<le> sint i \<and> sint i < int (length obs)"
proof -
  have "sint (word_of_nat (length obs) :: cint) \<le> int (length obs)"
    by (simp add: signed_of_nat signed_take_bit_int_less_eq_self_iff)
  then show ?thesis
    using assms by (simp add: valid_instrument_def word_sle_eq word_sless_alt)
qed

text \<open>
  Claim C10. For an instrument id outside \<open>[0, number of instruments)\<close>, \<^verbatim>\<open>get_price\<close> and
  \<^verbatim>\<open>get_historical_average\<close> return 0.0. Both are \<^verbatim>\<open>const\<close> members: in the model they
  are functions of the exchange that return the value only, so there is no state for them
  to change.
\<close>

theorem queries_out_of_range:
  assumes "\<not> (0 \<le> sint instrument_id' \<and> sint instrument_id' < int (length (order_books ex)))"
  shows "get_price ex instrument_id' = Fin 0 \<and>
         get_historical_average_of ex instrument_id' = Fin 0"
  using assms valid_instrument_range [of "order_books ex" instrument_id']
  by (auto simp: get_price_def get_historical_average_of_def)

theorem queries_out_of_range_witness:
  "\<not> (0 \<le> sint (5 :: cint) \<and> sint (5 :: cint) < int (length (order_books (the (Exchange_new 0 3))))) \<and>
   get_price (the (Exchange_new 0 3)) 5 = Fin 0 \<and>
   get_historical_average_of (the (Exchange_new 0 3)) 5 = Fin 0"
proof -
  have h: "\<not> (0 \<le> sint (5 :: cint) \<and> sint (5 :: cint) < int (length (order_books (the (Exchange_new 0 3)))))"
    by (simp add: Exchange_new_def word_sless_alt)
  show ?thesis using h queries_out_of_range [OF h] by simp
qed

section \<open>Price history\<close>

lemma match_loop_history:
  "match_loop t ob bi ai ts = (ob2, bi2, ai2, ts2) \<Longrightarrow>
   \<exists>new. ts2 = ts @ new \<and> price_history ob2 = price_history ob @ map Trade.price new"
proof (induction ob bi ai ts rule: match_loop_induct [where t = t])
  case (step ob bi ai ts)
  show ?case
  proof (cases "crossing ob bi ai")
    case True
    then have "match_loop t (fill_book ob bi ai) (next_bi ob bi ai) (next_ai ob bi ai)
                 (ts @ [trade_at t ob bi ai]) = (ob2, bi2, ai2, ts2)"
      using step.prems by (subst (asm) match_loop_unfold) simp
    from step.IH [OF True this] obtain new where
      "ts2 = (ts @ [trade_at t ob bi ai]) @ new"
      "price_history ob2 = price_history (fill_book ob bi ai) @ map Trade.price new" by blast
    then have "ts2 = ts @ (trade_at t ob bi ai # new) \<and>
               price_history ob2 = price_history ob @ map Trade.price (trade_at t ob bi ai # new)"
      by (simp add: fill_book_def trade_at_def)
    then show ?thesis by blast
  next
    case False
    then show ?thesis using step.prems by (subst (asm) match_loop_unfold) auto
  qed
qed

lemma match_orders_history:
  "price_history (snd (match_orders srt t ob)) =
   price_history ob @ map Trade.price (fst (match_orders srt t ob))"
proof -
  let ?ob1 = "ob\<lparr>bids := srt bid_cmp (bids ob), asks := srt ask_cmp (asks ob)\<rparr>"
  obtain ob2 bi2 ai2 ts2 where m: "match_loop t ?ob1 0 0 [] = (ob2, bi2, ai2, ts2)"
    by (metis prod_cases4)
  from match_loop_history [OF m] show ?thesis
    by (auto simp: match_orders_def m)
qed

lemma reachable_book_history:
  "reachable_book srt ob \<Longrightarrow> price_history ob \<noteq> [] \<and> hd (price_history ob) = Fin 100"
proof (induction rule: reachable_book.induct)
  case new
  show ?case by (simp add: OrderBook_new_def)
next
  case (add ob order)
  then show ?case by (simp add: add_order_def)
next
  case (match ob current_tick)
  then show ?case by (simp add: match_orders_history)
qed

text \<open>The left fold of \<open>+\<close> is exact as long as every partial sum is a double.\<close>

lemma accumulate_exact:
  "is_double a \<Longrightarrow> (\<forall>k \<le> length xs. is_double (a + sum_list (take k xs))) \<Longrightarrow>
   foldl dadd (Fin a) (map Fin xs) = Fin (a + sum_list xs)"
proof (induction xs arbitrary: a)
  case Nil
  show ?case by simp
next
  case (Cons x xs)
  have ax: "is_double (a + x)" using Cons.prems(2) [rule_format, of 1] by simp
  have "is_double ((a + x) + sum_list (take k xs))" if "k \<le> length xs" for k
    using Cons.prems(2) [rule_format, of "Suc k"] that by (simp add: add.assoc)
  then have "foldl dadd (Fin (a + x)) (map Fin xs) = Fin ((a + x) + sum_list xs)"
    using Cons.IH [OF ax] by blast
  then show ?case by (simp add: fl_exact [OF ax] add.assoc)
qed

lemma is_double_zero [simp]: "is_double 0"
  using is_double_of_int [of 0] by simp

lemma mean_exact:
  assumes "xs \<noteq> []" and "length xs < 2 ^ 53"
    and "\<forall>k \<le> length xs. is_double (sum_list (take k xs))"
    and "is_double (arithmetic_mean xs)"
  shows "ddiv (foldl dadd (Fin 0) (map Fin xs)) (double_of_size (length (map Fin xs)))
         = Fin (arithmetic_mean xs)"
proof -
  have "foldl dadd (Fin 0) (map Fin xs) = Fin (0 + sum_list xs)"
    by (rule accumulate_exact) (use assms(3) in simp_all)
  moreover have "double_of_size (length xs) = Fin (real (length xs))"
    using assms(2) by (simp add: double_of_size_def)
  ultimately show ?thesis
    using assms(1,4) by (simp add: fl_exact arithmetic_mean_def)
qed

text \<open>
  Claim C7, as the specification states it: in every reachable book
  \<^verbatim>\<open>get_historical_average\<close> returns the arithmetic mean of the price history. The sum and
  the quotient are rounded to doubles. Bids at 102 and 100 against asks at 100 and 100 put
  the trades at 101 and 100 after the seed 100; the mean of 100, 101 and 100 is 301 / 3,
  which is no double, and the call returns \<open>7060330665825621 / 2\<^sup>4\<^sup>6\<close> (100.33333333333333).
\<close>

theorem historical_average_is_rounded:
  "reachable_book insertion_sort
     (snd (match_orders insertion_sort 3
        (add_order \<lparr>agent_id = 4, instrument_id = 0, price = Fin 100, volume = 10, is_buy = False,
                     timestamp = 3, order_id = 4\<rparr>
          (add_order \<lparr>agent_id = 3, instrument_id = 0, price = Fin 100, volume = 10, is_buy = True,
                       timestamp = 2, order_id = 3\<rparr>
            (add_order \<lparr>agent_id = 2, instrument_id = 0, price = Fin 100, volume = 10,
                         is_buy = False, timestamp = 1, order_id = 2\<rparr>
              (add_order \<lparr>agent_id = 1, instrument_id = 0, price = Fin 102, volume = 10,
                           is_buy = True, timestamp = 0, order_id = 1\<rparr> OrderBook_new)))))) \<and>
   price_history
     (snd (match_orders insertion_sort 3
        (add_order \<lparr>agent_id = 4, instrument_id = 0, price = Fin 100, volume = 10, is_buy = False,
                     timestamp = 3, order_id = 4\<rparr>
          (add_order \<lparr>agent_id = 3, instrument_id = 0, price = Fin 100, volume = 10, is_buy = True,
                       timestamp = 2, order_id = 3\<rparr>
            (add_order \<lparr>agent_id = 2, instrument_id = 0, price = Fin 100, volume = 10,
                         is_buy = False, timestamp = 1, order_id = 2\<rparr>
              (add_order \<lparr>agent_id = 1, instrument_id = 0, price = Fin 102, volume = 10,
                           is_buy = True, timestamp = 0, order_id = 1\<rparr> OrderBook_new))))))
     = map Fin [100, 101, 100] \<and>
   get_historical_average
     (snd (match_orders insertion_sort 3
        (add_order \<lparr>agent_id = 4, instrument_id = 0, price = Fin 100, volume = 10, is_buy = False,
                     timestamp = 3, order_id = 4\<rparr>
          (add_order \<lparr>agent_id = 3, instrument_id = 0, price = Fin 100, volume = 10, is_buy = True,
                       timestamp = 2, order_id = 3\<rparr>
            (add_order \<lparr>agent_id = 2, instrument_id = 0, price = Fin 100, volume = 10,
                         is_buy = False, timestamp = 1, order_id = 2\<rparr>
              (add_order \<lparr>agent_id = 1, instrument_id = 0, price = Fin 102, volume = 10,
                           is_buy = True, timestamp = 0, order_id = 1\<rparr> OrderBook_new))))))
     = Fin (7060330665825621 / 70368744177664) \<and>
   Fin (7060330665825621 / 70368744177664) \<noteq> Fin (arithmetic_mean [100, 101, 100])"
proof -
  let ?ob = "snd (match_orders insertion_sort 3
        (add_order \<lparr>agent_id = 4, instrument_id = 0, price = Fin 100, volume = 10, is_buy = False,
                     timestamp = 3, order_id = 4\<rparr>
          (add_order \<lparr>agent_id = 3, instrument_id = 0, price = Fin 100, volume = 10, is_buy = True,
                       timestamp = 2, order_id = 3\<rparr>
            (add_order \<lparr>agent_id = 2, instrument_id = 0, price = Fin 100, volume = 10,
                         is_buy = False, timestamp = 1, order_id = 2\<rparr>
              (add_order \<lparr>agent_id = 1, instrument_id = 0, price = Fin 102, volume = 10,
                           is_buy = True, timestamp = 0, order_id = 1\<rparr> OrderBook_new)))))"
  have r: "reachable_book insertion_sort ?ob"
    by (intro reachable_book.match reachable_book.add reachable_book.new)
  have h: "price_history ?ob = [Fin 100, Fin 101, Fin 100]"
    by (simp add: add_order_def OrderBook_new_def match_orders_def sort_eval
        match_loop_unfold loop_eval)
  have a: "get_historical_average ?ob = Fin (7060330665825621 / 70368744177664)"
    unfolding get_historical_average_def h
    by (simp add: double_of_size_def fl_301_thirds)
  have "(7060330665825621 / 70368744177664 :: real) \<noteq> arithmetic_mean [100, 101, 100]"
    by (simp add: arithmetic_mean_def)
  then show ?thesis using r h a by simp
qed

text \<open>
  Claim C7, amended. In every book that \<^verbatim>\<open>add_order\<close> and \<^verbatim>\<open>match_orders\<close> reach from a new
  book, \<^verbatim>\<open>price_history\<close> is not empty and starts with the seed 100.0, a matching pass
  appends the price of each of its trades and nothing else, and \<^verbatim>\<open>get_historical_average\<close>
  is the sum of the whole history, seed included, added up from the left in doubles, divided
  in doubles by its length. It is the arithmetic mean when the history holds fewer than
  \<open>2\<^sup>5\<^sup>3\<close> finite prices and the sum of each of its prefixes and the mean are doubles.
\<close>

theorem historical_average_is_mean:
  assumes "reachable_book srt ob"
  shows "price_history ob \<noteq> [] \<and> hd (price_history ob) = Fin 100 \<and>
         price_history (snd (match_orders srt current_tick ob)) =
           price_history ob @ map Trade.price (fst (match_orders srt current_tick ob)) \<and>
         get_historical_average ob =
           ddiv (foldl dadd (Fin 0) (price_history ob))
                (double_of_size (length (price_history ob))) \<and>
         (\<forall>xs. price_history ob = map Fin xs \<and> length xs < 2 ^ 53 \<and>
               (\<forall>k \<le> length xs. is_double (sum_list (take k xs))) \<and>
               is_double (arithmetic_mean xs)
               \<longrightarrow> get_historical_average ob = Fin (arithmetic_mean xs))"
proof -
  have ne: "price_history ob \<noteq> []" and hd: "hd (price_history ob) = Fin 100"
    using reachable_book_history [OF assms] by simp_all
  have avg: "get_historical_average ob =
           ddiv (foldl dadd (Fin 0) (price_history ob))
                (double_of_size (length (price_history ob)))"
    using ne by (simp add: get_historical_average_def)
  have "get_historical_average ob = Fin (arithmetic_mean xs)"
    if "price_history ob = map Fin xs" "length xs < 2 ^ 53"
      "\<forall>k \<le> length xs. is_double (sum_list (take k xs))" "is_double (arithmetic_mean xs)" for xs
  proof -
    have "xs \<noteq> []" using ne that(1) by auto
    from mean_exact [OF this that(2,3,4)] show ?thesis
      unfolding avg that(1) .
  qed
  then show ?thesis using ne hd avg match_orders_history by blast
qed

theorem historical_average_is_mean_witness:
  "reachable_book insertion_sort
     (snd (match_orders insertion_sort 3
        (add_order \<lparr>agent_id = 2, instrument_id = 0, price = Fin 100, volume = 10, is_buy = False,
                     timestamp = 1, order_id = 2\<rparr>
          (add_order \<lparr>agent_id = 1, instrument_id = 0, price = Fin 104, volume = 10, is_buy = True,
                       timestamp = 0, order_id = 1\<rparr> OrderBook_new)))) \<and>
   price_history
     (snd (match_orders insertion_sort 3
        (add_order \<lparr>agent_id = 2, instrument_id = 0, price = Fin 100, volume = 10, is_buy = False,
                     timestamp = 1, order_id = 2\<rparr>
          (add_order \<lparr>agent_id = 1, instrument_id = 0, price = Fin 104, volume = 10, is_buy = True,
                       timestamp = 0, order_id = 1\<rparr> OrderBook_new)))) = map Fin [100, 102] \<and>
   is_double (sum_list (take 0 [100, 102])) \<and> is_double (sum_list (take 1 [100, 102])) \<and>
   is_double (sum_list (take 2 [100, 102])) \<and> is_double (arithmetic_mean [100, 102]) \<and>
   get_historical_average
     (snd (match_orders insertion_sort 3
        (add_order \<lparr>agent_id = 2, instrument_id = 0, price = Fin 100, volume = 10, is_buy = False,
                     timestamp = 1, order_id = 2\<rparr>
          (add_order \<lparr>agent_id = 1, instrument_id = 0, price = Fin 104, volume = 10, is_buy = True,
                       timestamp = 0, order_id = 1\<rparr> OrderBook_new)))) = Fin 101"
proof -
  let ?ob = "snd (match_orders insertion_sort 3
        (add_order \<lparr>agent_id = 2, instrument_id = 0, price = Fin 100, volume = 10, is_buy = False,
                     timestamp = 1, order_id = 2\<rparr>
          (add_order \<lparr>agent_id = 1, instrument_id = 0, price = Fin 104, volume = 10, is_buy = True,
                       timestamp = 0, order_id = 1\<rparr> OrderBook_new)))"
  have r: "reachable_book insertion_sort ?ob"
    by (intro reachable_book.match reachable_book.add reachable_book.new)
  have h: "price_history ?ob = map Fin [100, 102]"
    by (simp add: add_order_def OrderBook_new_def match_orders_def sort_eval
        match_loop_unfold loop_eval)
  have d: "is_double (sum_list (take 0 [100, 102]))" "is_double (sum_list (take 1 [100, 102]))"
    "is_double (sum_list (take 2 [100, 102]))" "is_double (arithmetic_mean [100, 102])"
    using is_double_of_int [of 0] is_double_of_int [of 100] is_double_of_int [of 202]
      is_double_of_int [of 101]
    by (simp_all add: arithmetic_mean_def)
  have p: "\<forall>k \<le> length [100, 102 :: real]. is_double (sum_list (take k [100, 102]))"
  proof (intro allI impI)
    fix k :: nat
    assume "k \<le> length [100, 102 :: real]"
    then have "k = 0 \<or> k = 1 \<or> k = 2" by auto
    then show "is_double (sum_list (take k [100, 102]))" using d(1,2,3) by auto
  qed
  from historical_average_is_mean [OF r, of 0]
  have "\<forall>xs. price_history ?ob = map Fin xs \<and> length xs < 2 ^ 53 \<and>
               (\<forall>k \<le> length xs. is_double (sum_list (take k xs))) \<and>
               is_double (arithmetic_mean xs)
               \<longrightarrow> get_historical_average ?ob = Fin (arithmetic_mean xs)"
    by (elim conjE)
  from this [rule_format, of "[100, 102]"] h p d(4)
  have "get_historical_average ?ob = Fin (arithmetic_mean [100, 102])" by simp
  then have "get_historical_average ?ob = Fin 101" by (simp add: arithmetic_mean_def)
  then show ?thesis using r h d by blast
qed

section \<open>Scenario A\<close>

lemma std_sort_nil: "is_std_sort srt \<Longrightarrow> srt bid_cmp [] = [] \<and> srt ask_cmp [] = []"
  unfolding is_std_sort_def by (metis mset_zero_iff)

lemma std_sort_single: "is_std_sort srt \<Longrightarrow> srt bid_cmp [x] = [x] \<and> srt ask_cmp [x] = [x]"
  unfolding is_std_sort_def by (metis mset_single_iff mset.simps(1) mset.simps(2))

lemma match_books_unfold:
  "match_books srt t ex i n =
     (if i < length (order_books ex)
      then match_books srt t
             (ex\<lparr>order_books := (order_books ex)[i := snd (match_orders srt t (order_books ex ! i))],
                 trade_log := trade_log ex @ fst (match_orders srt t (order_books ex ! i))\<rparr>)
             (i + 1) (n + word_of_nat (length (fst (match_orders srt t (order_books ex ! i)))))
      else (n, ex))"
  by (subst match_books.simps) (simp add: case_prod_beta Let_def)

text \<open>
  Claim C5 (scenario A). On a new exchange with one instrument, a buy of 10 at 101
  (tick 0) and a sell of 10 at 99 (tick 1) are submitted; \<^verbatim>\<open>process_orders\<close> then returns
  1, logs one trade of volume 10 at price 100.0, and leaves both sides of the book empty,
  whatever \<^verbatim>\<open>std::sort\<close> does within its contract.
\<close>

theorem scenario_A:
  assumes "is_std_sort srt" and "Exchange_new rank' 1 = Some ex"
  shows "process_orders srt current_tick
           (submit_order \<lparr>agent_id = seller, instrument_id = 0, price = Fin 99, volume = 10,
                           is_buy = False, timestamp = 1, order_id = j\<rparr>
             (submit_order \<lparr>agent_id = buyer, instrument_id = 0, price = Fin 101, volume = 10,
                             is_buy = True, timestamp = 0, order_id = i\<rparr> ex))
         = (1, \<lparr>rank = rank', num_instruments = 1,
                 order_books = [\<lparr>bids = [], asks = [], last_price = Fin 100,
                                  price_history = [Fin 100, Fin 100]\<rparr>],
                 pending_orders = [],
                 trade_log = [\<lparr>buy_agent_id = buyer, sell_agent_id = seller,
                                Trade.instrument_id = 0, Trade.price = Fin 100,
                                Trade.volume = 10, Trade.timestamp = current_tick\<rparr>],
                 next_order_id = 3\<rparr>)"
proof -
  have ex: "ex = \<lparr>rank = rank', num_instruments = 1, order_books = [OrderBook_new],
                  pending_orders = [], trade_log = [], next_order_id = 1\<rparr>"
    using assms(2) by (simp add: Exchange_new_def word_sless_alt split: if_splits)
  let ?b = "\<lparr>agent_id = buyer, instrument_id = 0, price = Fin 101, volume = 10,
              is_buy = True, timestamp = 0, order_id = 1\<rparr>"
  let ?s = "\<lparr>agent_id = seller, instrument_id = 0, price = Fin 99, volume = 10,
              is_buy = False, timestamp = 1, order_id = 2\<rparr>"
  have m: "match_orders srt current_tick
             \<lparr>bids = [?b], asks = [?s], last_price = Fin 100, price_history = [Fin 100]\<rparr>
           = ([\<lparr>buy_agent_id = buyer, sell_agent_id = seller,
                                Trade.instrument_id = 0, Trade.price = Fin 100,
                                Trade.volume = 10, Trade.timestamp = current_tick\<rparr>],
              \<lparr>bids = [], asks = [], last_price = Fin 100, price_history = [Fin 100, Fin 100]\<rparr>)"
    by (simp add: match_orders_def std_sort_single [OF assms(1)] match_loop_unfold loop_eval)
  show ?thesis
    by (simp add: ex process_orders_def submit_order_def valid_instrument_def add_order_def
        OrderBook_new_def word_sless_alt word_sle_eq match_books_unfold m)
qed


theorem scenario_A_witness:
  "is_std_sort insertion_sort \<and>
   Exchange_new 0 1 = Some \<lparr>rank = 0, num_instruments = 1, order_books = [OrderBook_new],
                              pending_orders = [], trade_log = [], next_order_id = 1\<rparr> \<and>
   process_orders insertion_sort 0
     (submit_order \<lparr>agent_id = 2, instrument_id = 0, price = Fin 99, volume = 10,
                     is_buy = False, timestamp = 1, order_id = 0\<rparr>
       (submit_order \<lparr>agent_id = 1, instrument_id = 0, price = Fin 101, volume = 10,
                       is_buy = True, timestamp = 0, order_id = 0\<rparr>
          \<lparr>rank = 0, num_instruments = 1, order_books = [OrderBook_new],
            pending_orders = [], trade_log = [], next_order_id = 1\<rparr>))
   = (1, \<lparr>rank = 0, num_instruments = 1,
           order_books = [\<lparr>bids = [], asks = [], last_price = Fin 100, price_history = [Fin 100, Fin 100]\<rparr>],
           pending_orders = [],
           trade_log = [\<lparr>buy_agent_id = 1, sell_agent_id = 2, Trade.instrument_id = 0,
                          Trade.price = Fin 100, Trade.volume = 10, Trade.timestamp = 0\<rparr>],
           next_order_id = 3\<rparr>)"
proof -
  have h: "Exchange_new 0 1 = Some \<lparr>rank = 0, num_instruments = 1, order_books = [OrderBook_new],
                              pending_orders = [], trade_log = [], next_order_id = 1\<rparr>"
    by (simp add: Exchange_new_def word_sless_alt)
  show ?thesis
    using insertion_sort_is_std_sort h scenario_A [OF insertion_sort_is_std_sort h]
    by simp
qed

section \<open>The trace of the loop and the priority of the orders\<close>

lemma match_fills_unfold:
  "match_fills ob bi ai =
     (if crossing ob bi ai
      then \<lparr>bid_idx = bi, ask_idx = ai,
            bid_remaining = volume (bids ob ! bi), ask_remaining = volume (asks ob ! ai)\<rparr>
           # match_fills (fill_book ob bi ai) (next_bi ob bi ai) (next_ai ob bi ai)
      else [])"
  by (subst match_fills.simps) simp

lemma nth_update_keeps:
  assumes "\<And>(x::Order) v. f (x\<lparr>volume := v\<rparr>) = f x"
  shows "f (xs[i := (xs ! i)\<lparr>volume := w\<rparr>] ! j) = f (xs ! j)"
  by (cases "i < length xs") (auto simp: nth_list_update list_update_beyond assms)

lemma fill_trade_fill_book:
  "fill_trade t (bids (fill_book ob bi ai)) (asks (fill_book ob bi ai)) f =
   fill_trade t (bids ob) (asks ob) f"
  by (simp add: fill_trade_def fill_book_def nth_update_keeps)

lemma match_loop_trades:
  "match_loop t ob bi ai ts = (ob2, bi2, ai2, ts2) \<Longrightarrow>
   ts2 = ts @ map (fill_trade t (bids ob) (asks ob)) (match_fills ob bi ai)"
proof (induction ob bi ai ts rule: match_loop_induct [where t = t])
  case (step ob bi ai ts)
  show ?case
  proof (cases "crossing ob bi ai")
    case True
    then have "match_loop t (fill_book ob bi ai) (next_bi ob bi ai) (next_ai ob bi ai)
                 (ts @ [trade_at t ob bi ai]) = (ob2, bi2, ai2, ts2)"
      using step.prems by (subst (asm) match_loop_unfold) simp
    from step.IH [OF True this]
    have "ts2 = (ts @ [trade_at t ob bi ai]) @
                map (fill_trade t (bids ob) (asks ob))
                  (match_fills (fill_book ob bi ai) (next_bi ob bi ai) (next_ai ob bi ai))"
      by (simp add: fill_trade_fill_book cong: map_cong)
    moreover have "trade_at t ob bi ai =
        fill_trade t (bids ob) (asks ob)
          \<lparr>bid_idx = bi, ask_idx = ai,
            bid_remaining = volume (bids ob ! bi), ask_remaining = volume (asks ob ! ai)\<rparr>"
      by (simp add: trade_at_def fill_trade_def fill_volume_def fill_vol_def)
    ultimately show ?thesis using True by (subst match_fills_unfold) simp
  next
    case False
    then show ?thesis using step.prems
      by (subst (asm) match_loop_unfold, subst match_fills_unfold) auto
  qed
qed

lemma match_orders_trades:
  "fst (match_orders srt t ob) =
   map (fill_trade t (srt bid_cmp (bids ob)) (srt ask_cmp (asks ob)))
     (match_fills (ob\<lparr>bids := srt bid_cmp (bids ob), asks := srt ask_cmp (asks ob)\<rparr>) 0 0)"
proof -
  let ?ob1 = "ob\<lparr>bids := srt bid_cmp (bids ob), asks := srt ask_cmp (asks ob)\<rparr>"
  obtain ob2 bi2 ai2 ts2 where m: "match_loop t ?ob1 0 0 [] = (ob2, bi2, ai2, ts2)"
    by (metis prod_cases4)
  from match_loop_trades [OF m] show ?thesis
    by (simp add: match_orders_def m)
qed

lemma match_fills_bid_trace:
  "l < length (match_fills ob bi ai) \<Longrightarrow>
   bi \<le> bid_idx (match_fills ob bi ai ! l) \<and>
   bid_idx (match_fills ob bi ai ! l) < length (bids ob) \<and>
   (\<forall>i. bi \<le> i \<and> i < bid_idx (match_fills ob bi ai ! l) \<longrightarrow>
        (\<exists>k<l. bid_idx (match_fills ob bi ai ! k) = i)) \<and>
   (\<forall>k\<le>l. bid_idx (match_fills ob bi ai ! k) \<le> bid_idx (match_fills ob bi ai ! l))"
proof (induction ob bi ai arbitrary: l rule: match_fills.induct)
  case (1 ob bi ai)
  let ?rest = "match_fills (fill_book ob bi ai) (next_bi ob bi ai) (next_ai ob bi ai)"
  let ?f = "\<lparr>bid_idx = bi, ask_idx = ai,
            bid_remaining = volume (bids ob ! bi), ask_remaining = volume (asks ob ! ai)\<rparr>"
  have c: "crossing ob bi ai"
    using "1.prems" by (subst (asm) match_fills_unfold) (auto split: if_splits)
  then have fs: "match_fills ob bi ai = ?f # ?rest"
    by (subst match_fills_unfold) simp
  show ?case
  proof (cases l)
    case 0
    then show ?thesis using c by (simp add: fs crossing_def)
  next
    case (Suc l')
    then have l': "l' < length ?rest" using "1.prems" fs by simp
    note ih = "1.IH" [OF c l']
    have nb: "bi \<le> next_bi ob bi ai" "next_bi ob bi ai \<le> bi + 1"
      using next_bi_bounds [of bi ob ai] by simp_all
    have a: "bi \<le> bid_idx (?rest ! l')" using ih nb by simp
    have b: "bid_idx (?rest ! l') < length (bids ob)" using ih by simp
    have d: "\<exists>k<l. bid_idx ((?f # ?rest) ! k) = i" if "bi \<le> i" "i < bid_idx (?rest ! l')" for i
    proof (cases "i = bi")
      case True
      then show ?thesis using Suc by (intro exI [of _ 0]) simp
    next
      case False
      then have "next_bi ob bi ai \<le> i" using that nb by simp
      with ih that obtain k where "k < l'" "bid_idx (?rest ! k) = i" by blast
      then show ?thesis using Suc by (intro exI [of _ "Suc k"]) simp
    qed
    have e: "bid_idx ((?f # ?rest) ! k) \<le> bid_idx (?rest ! l')" if "k \<le> l" for k
    proof (cases k)
      case 0
      then show ?thesis using a by simp
    next
      case (Suc k')
      then show ?thesis using ih that \<open>l = Suc l'\<close> by simp
    qed
    show ?thesis using a b d e by (simp add: fs Suc)
  qed
qed


lemma match_fills_ask_trace:
  "l < length (match_fills ob bi ai) \<Longrightarrow>
   ai \<le> ask_idx (match_fills ob bi ai ! l) \<and>
   ask_idx (match_fills ob bi ai ! l) < length (asks ob) \<and>
   (\<forall>i. ai \<le> i \<and> i < ask_idx (match_fills ob bi ai ! l) \<longrightarrow>
        (\<exists>k<l. ask_idx (match_fills ob bi ai ! k) = i)) \<and>
   (\<forall>k\<le>l. ask_idx (match_fills ob bi ai ! k) \<le> ask_idx (match_fills ob bi ai ! l))"
proof (induction ob bi ai arbitrary: l rule: match_fills.induct)
  case (1 ob bi ai)
  let ?rest = "match_fills (fill_book ob bi ai) (next_bi ob bi ai) (next_ai ob bi ai)"
  let ?f = "\<lparr>bid_idx = bi, ask_idx = ai,
            bid_remaining = volume (bids ob ! bi), ask_remaining = volume (asks ob ! ai)\<rparr>"
  have c: "crossing ob bi ai"
    using "1.prems" by (subst (asm) match_fills_unfold) (auto split: if_splits)
  then have fs: "match_fills ob bi ai = ?f # ?rest"
    by (subst match_fills_unfold) simp
  show ?case
  proof (cases l)
    case 0
    then show ?thesis using c by (simp add: fs crossing_def)
  next
    case (Suc l')
    then have l': "l' < length ?rest" using "1.prems" fs by simp
    note ih = "1.IH" [OF c l']
    have nb: "ai \<le> next_ai ob bi ai" "next_ai ob bi ai \<le> ai + 1"
      using next_ai_bounds [of ai ob bi] by simp_all
    have a: "ai \<le> ask_idx (?rest ! l')" using ih nb by simp
    have b: "ask_idx (?rest ! l') < length (asks ob)" using ih by simp
    have d: "\<exists>k<l. ask_idx ((?f # ?rest) ! k) = i" if "ai \<le> i" "i < ask_idx (?rest ! l')" for i
    proof (cases "i = ai")
      case True
      then show ?thesis using Suc by (intro exI [of _ 0]) simp
    next
      case False
      then have "next_ai ob bi ai \<le> i" using that nb by simp
      with ih that obtain k where "k < l'" "ask_idx (?rest ! k) = i" by blast
      then show ?thesis using Suc by (intro exI [of _ "Suc k"]) simp
    qed
    have e: "ask_idx ((?f # ?rest) ! k) \<le> ask_idx (?rest ! l')" if "k \<le> l" for k
    proof (cases k)
      case 0
      then show ?thesis using a by simp
    next
      case (Suc k')
      then show ?thesis using ih that \<open>l = Suc l'\<close> by simp
    qed
    show ?thesis using a b d e by (simp add: fs Suc)
  qed
qed

lemma bid_priority_index:
  assumes s: "sorted_by bid_cmp bs" and n: "no_nan bs"
    and i: "i < length bs" and j: "j < length bs"
    and p: "price (bs ! i) = price (bs ! j)" and t: "timestamp (bs ! i) <s timestamp (bs ! j)"
  shows "i < j"
proof (rule ccontr)
  assume "\<not> i < j"
  then consider "i = j" | "j < i" by linarith
  then show False
  proof cases
    case 1
    then show ?thesis using t by (simp add: word_sless_alt)
  next
    case 2
    then have "\<not> bid_cmp (bs ! i) (bs ! j)"
      using s i sorted_wrt_nth_less [of "\<lambda>a b. \<not> bid_cmp b a" bs j i]
      by (simp add: sorted_by_def)
    then show ?thesis using p t no_nan_nth [OF n i] by (simp add: bid_cmp_def dne_def)
  qed
qed

lemma ask_priority_index:
  assumes s: "sorted_by ask_cmp bs" and n: "no_nan bs"
    and i: "i < length bs" and j: "j < length bs"
    and p: "price (bs ! i) = price (bs ! j)" and t: "timestamp (bs ! i) <s timestamp (bs ! j)"
  shows "i < j"
proof (rule ccontr)
  assume "\<not> i < j"
  then consider "i = j" | "j < i" by linarith
  then show False
  proof cases
    case 1
    then show ?thesis using t by (simp add: word_sless_alt)
  next
    case 2
    then have "\<not> ask_cmp (bs ! i) (bs ! j)"
      using s i sorted_wrt_nth_less [of "\<lambda>a b. \<not> ask_cmp b a" bs j i]
      by (simp add: sorted_by_def)
    then show ?thesis using p t no_nan_nth [OF n i] by (simp add: ask_cmp_def dne_def)
  qed
qed

lemma bid_time_priority:
  assumes s: "sorted_by bid_cmp (bids ob)" and n: "no_nan (bids ob)"
    and l: "l < length (match_fills ob 0 0)" and i: "i < length (bids ob)"
    and p: "price (bids ob ! i) = price (bids ob ! bid_idx (match_fills ob 0 0 ! l))"
    and t: "timestamp (bids ob ! i) <s timestamp (bids ob ! bid_idx (match_fills ob 0 0 ! l))"
  shows "(\<exists>k<l. bid_idx (match_fills ob 0 0 ! k) = i) \<and>
         (\<forall>k<length (match_fills ob 0 0). bid_idx (match_fills ob 0 0 ! k) = i \<longrightarrow> k < l)"
proof -
  let ?fs = "match_fills ob 0 0"
  note tr = match_fills_bid_trace [OF l]
  have ij: "i < bid_idx (?fs ! l)"
    using bid_priority_index [OF s n i _ p t] tr by simp
  have "\<exists>k<l. bid_idx (?fs ! k) = i" using tr ij by simp
  moreover have "k < l" if "k < length ?fs" "bid_idx (?fs ! k) = i" for k
  proof (rule ccontr)
    assume "\<not> k < l"
    then have "l \<le> k" by simp
    then have "bid_idx (?fs ! l) \<le> bid_idx (?fs ! k)"
      using match_fills_bid_trace [OF that(1)] by simp
    then show False using ij that(2) by simp
  qed
  ultimately show ?thesis by blast
qed

lemma ask_time_priority:
  assumes s: "sorted_by ask_cmp (asks ob)" and n: "no_nan (asks ob)"
    and l: "l < length (match_fills ob 0 0)" and i: "i < length (asks ob)"
    and p: "price (asks ob ! i) = price (asks ob ! ask_idx (match_fills ob 0 0 ! l))"
    and t: "timestamp (asks ob ! i) <s timestamp (asks ob ! ask_idx (match_fills ob 0 0 ! l))"
  shows "(\<exists>k<l. ask_idx (match_fills ob 0 0 ! k) = i) \<and>
         (\<forall>k<length (match_fills ob 0 0). ask_idx (match_fills ob 0 0 ! k) = i \<longrightarrow> k < l)"
proof -
  let ?fs = "match_fills ob 0 0"
  note tr = match_fills_ask_trace [OF l]
  have ij: "i < ask_idx (?fs ! l)"
    using ask_priority_index [OF s n i _ p t] tr by simp
  have "\<exists>k<l. ask_idx (?fs ! k) = i" using tr ij by simp
  moreover have "k < l" if "k < length ?fs" "ask_idx (?fs ! k) = i" for k
  proof (rule ccontr)
    assume "\<not> k < l"
    then have "l \<le> k" by simp
    then have "ask_idx (?fs ! l) \<le> ask_idx (?fs ! k)"
      using match_fills_ask_trace [OF that(1)] by simp
    then show False using ij that(2) by simp
  qed
  ultimately show ?thesis by blast
qed

lemma std_sort_bid_pair:
  assumes "is_std_sort srt" and "bid_cmp x y" and "no_nan [x, y]"
  shows "srt bid_cmp [x, y] = [x, y]"
proof -
  have m: "mset (srt bid_cmp [x, y]) = {#x, y#}" and s: "sorted_by bid_cmp (srt bid_cmp [x, y])"
    using assms(1,3) by (simp_all add: is_std_sort_def)
  from m have "length (srt bid_cmp [x, y]) = 2"
    using mset_eq_length [of "srt bid_cmp [x, y]" "[x, y]"] by simp
  then obtain u v where uv: "srt bid_cmp [x, y] = [u, v]"
    by (auto simp: length_Suc_conv numeral_2_eq_2)
  with m have "{#u, v#} = {#x, y#}" by simp
  then have "(u = x \<and> v = y) \<or> (u = y \<and> v = x)"
    by (auto simp: add_eq_conv_ex)
  moreover have "\<not> bid_cmp v u" using s uv by (simp add: sorted_by_def)
  ultimately show ?thesis using assms(2) uv by auto
qed

section \<open>Price-time priority and scenario B\<close>

lemmas fills_eval = pass_fills_def sorted_book_def sort_eval
  match_fills_unfold crossing_def fill_book_def next_bi_def next_ai_def
  fill_volume_def std_min_def word_sless_alt word_sle_eq

text \<open>
  Claim C3, as the specification states it: among the resting orders at equal price, the
  one with the earlier tick is matched first. It does not hold of a book with a NaN price.
  Bids of volume 1 at NaN, 100 (tick 1), NaN and 100 (tick 0) and one ask of 4 at 100: the
  sort leaves the bids in this order, since no comparison with a NaN price moves an order,
  and the loop trades with them in this order, so the bid of tick 1 is filled in the second
  trade and the bid of tick 0, at the same price, in the fourth: no trade against it comes
  before.
\<close>

theorem nan_price_breaks_time_priority:
  "is_std_sort insertion_sort \<and>
   (let ob =
     \<lparr>bids = [\<lparr>agent_id = 1, instrument_id = 0, price = NaN, volume = 1, is_buy = True,
                timestamp = 2, order_id = 1\<rparr>,
              \<lparr>agent_id = 2, instrument_id = 0, price = Fin 100, volume = 1, is_buy = True,
                timestamp = 1, order_id = 2\<rparr>,
              \<lparr>agent_id = 3, instrument_id = 0, price = NaN, volume = 1, is_buy = True,
                timestamp = 3, order_id = 3\<rparr>,
              \<lparr>agent_id = 4, instrument_id = 0, price = Fin 100, volume = 1, is_buy = True,
                timestamp = 0, order_id = 4\<rparr>],
       asks = [\<lparr>agent_id = 5, instrument_id = 0, price = Fin 100, volume = 4, is_buy = False,
                timestamp = 4, order_id = 5\<rparr>],
       last_price = Fin 100, price_history = [Fin 100]\<rparr>;
        bs = bids (sorted_book insertion_sort ob);
        fs = pass_fills insertion_sort ob
    in bs =
     [\<lparr>agent_id = 1, instrument_id = 0, price = NaN, volume = 1, is_buy = True,
        timestamp = 2, order_id = 1\<rparr>,
      \<lparr>agent_id = 2, instrument_id = 0, price = Fin 100, volume = 1, is_buy = True,
        timestamp = 1, order_id = 2\<rparr>,
      \<lparr>agent_id = 3, instrument_id = 0, price = NaN, volume = 1, is_buy = True,
        timestamp = 3, order_id = 3\<rparr>,
      \<lparr>agent_id = 4, instrument_id = 0, price = Fin 100, volume = 1, is_buy = True,
        timestamp = 0, order_id = 4\<rparr>] \<and>
    fs =
     [\<lparr>bid_idx = 0, ask_idx = 0, bid_remaining = 1, ask_remaining = 4\<rparr>,
      \<lparr>bid_idx = 1, ask_idx = 0, bid_remaining = 1, ask_remaining = 3\<rparr>,
      \<lparr>bid_idx = 2, ask_idx = 0, bid_remaining = 1, ask_remaining = 2\<rparr>,
      \<lparr>bid_idx = 3, ask_idx = 0, bid_remaining = 1, ask_remaining = 1\<rparr>] \<and>
    fst (match_orders insertion_sort 9 ob) =
     [\<lparr>buy_agent_id = 1, sell_agent_id = 5, Trade.instrument_id = 0, Trade.price = NaN,
        Trade.volume = 1, Trade.timestamp = 9\<rparr>,
      \<lparr>buy_agent_id = 2, sell_agent_id = 5, Trade.instrument_id = 0, Trade.price = Fin 100,
        Trade.volume = 1, Trade.timestamp = 9\<rparr>,
      \<lparr>buy_agent_id = 3, sell_agent_id = 5, Trade.instrument_id = 0, Trade.price = NaN,
        Trade.volume = 1, Trade.timestamp = 9\<rparr>,
      \<lparr>buy_agent_id = 4, sell_agent_id = 5, Trade.instrument_id = 0, Trade.price = Fin 100,
        Trade.volume = 1, Trade.timestamp = 9\<rparr>] \<and>
    \<not> (\<forall>l < length fs. \<forall>i < length bs.
          price (bs ! i) = price (bs ! bid_idx (fs ! l)) \<and>
          timestamp (bs ! i) <s timestamp (bs ! bid_idx (fs ! l))
          \<longrightarrow>
          (\<exists>k<l. bid_idx (fs ! k) = i) \<and>
          (\<forall>k < length fs. bid_idx (fs ! k) = i \<longrightarrow> k < l)))"
proof -
  let ?ob = "\<lparr>bids = [\<lparr>agent_id = 1, instrument_id = 0, price = NaN, volume = 1, is_buy = True,
                timestamp = 2, order_id = 1\<rparr>,
              \<lparr>agent_id = 2, instrument_id = 0, price = Fin 100, volume = 1, is_buy = True,
                timestamp = 1, order_id = 2\<rparr>,
              \<lparr>agent_id = 3, instrument_id = 0, price = NaN, volume = 1, is_buy = True,
                timestamp = 3, order_id = 3\<rparr>,
              \<lparr>agent_id = 4, instrument_id = 0, price = Fin 100, volume = 1, is_buy = True,
                timestamp = 0, order_id = 4\<rparr>],
       asks = [\<lparr>agent_id = 5, instrument_id = 0, price = Fin 100, volume = 4, is_buy = False,
                timestamp = 4, order_id = 5\<rparr>],
       last_price = Fin 100, price_history = [Fin 100]\<rparr>"
  let ?bs = "[\<lparr>agent_id = 1, instrument_id = 0, price = NaN, volume = 1, is_buy = True,
        timestamp = 2, order_id = 1\<rparr>,
      \<lparr>agent_id = 2, instrument_id = 0, price = Fin 100, volume = 1, is_buy = True,
        timestamp = 1, order_id = 2\<rparr>,
      \<lparr>agent_id = 3, instrument_id = 0, price = NaN, volume = 1, is_buy = True,
        timestamp = 3, order_id = 3\<rparr>,
      \<lparr>agent_id = 4, instrument_id = 0, price = Fin 100, volume = 1, is_buy = True,
        timestamp = 0, order_id = 4\<rparr>]"
  let ?fs = "[\<lparr>bid_idx = 0, ask_idx = 0, bid_remaining = 1, ask_remaining = 4\<rparr>,
      \<lparr>bid_idx = 1, ask_idx = 0, bid_remaining = 1, ask_remaining = 3\<rparr>,
      \<lparr>bid_idx = 2, ask_idx = 0, bid_remaining = 1, ask_remaining = 2\<rparr>,
      \<lparr>bid_idx = 3, ask_idx = 0, bid_remaining = 1, ask_remaining = 1\<rparr>]"
  have b: "bids (sorted_book insertion_sort ?ob) = ?bs"
    by (simp add: sorted_book_def sort_eval)
  have f: "pass_fills insertion_sort ?ob = ?fs"
    by (simp add: fills_eval)
  have t: "fst (match_orders insertion_sort 9 ?ob) =
     [\<lparr>buy_agent_id = 1, sell_agent_id = 5, Trade.instrument_id = 0, Trade.price = NaN,
        Trade.volume = 1, Trade.timestamp = 9\<rparr>,
      \<lparr>buy_agent_id = 2, sell_agent_id = 5, Trade.instrument_id = 0, Trade.price = Fin 100,
        Trade.volume = 1, Trade.timestamp = 9\<rparr>,
      \<lparr>buy_agent_id = 3, sell_agent_id = 5, Trade.instrument_id = 0, Trade.price = NaN,
        Trade.volume = 1, Trade.timestamp = 9\<rparr>,
      \<lparr>buy_agent_id = 4, sell_agent_id = 5, Trade.instrument_id = 0, Trade.price = Fin 100,
        Trade.volume = 1, Trade.timestamp = 9\<rparr>]"
    by (simp add: match_orders_def sort_eval match_loop_unfold loop_eval)
  have n: "\<not> (\<forall>l < length ?fs. \<forall>i < length ?bs.
          price (?bs ! i) = price (?bs ! bid_idx (?fs ! l)) \<and>
          timestamp (?bs ! i) <s timestamp (?bs ! bid_idx (?fs ! l))
          \<longrightarrow>
          (\<exists>k<l. bid_idx (?fs ! k) = i) \<and>
          (\<forall>k < length ?fs. bid_idx (?fs ! k) = i \<longrightarrow> k < l))"
  proof
    assume "\<forall>l < length ?fs. \<forall>i < length ?bs.
          price (?bs ! i) = price (?bs ! bid_idx (?fs ! l)) \<and>
          timestamp (?bs ! i) <s timestamp (?bs ! bid_idx (?fs ! l))
          \<longrightarrow>
          (\<exists>k<l. bid_idx (?fs ! k) = i) \<and>
          (\<forall>k < length ?fs. bid_idx (?fs ! k) = i \<longrightarrow> k < l)"
    from this [rule_format, of 1 3] have "\<exists>k<1. bid_idx (?fs ! k) = 3"
      by (simp add: word_sless_alt)
    then show False by simp
  qed
  show ?thesis
    unfolding Let_def b f t using insertion_sort_is_std_sort n by blast
qed

text \<open>
  Claim C3, amended. Among the resting orders of one side at one price, when no price of
  that side is NaN, an order with an earlier
  \<^verbatim>\<open>timestamp\<close> is matched first: when a trade of a matching pass is against an order, every
  order of the same side with the same price and an earlier timestamp has been traded
  against before in that pass, and all the trades against it come before. The trades of
  a pass are those of its trace, in its order. Scenario B: on a new exchange with one
  instrument, buy 5 at 100 (tick 0), buy 5 at 100 (tick 1) and sell 7 at 100 (tick 2) give
  two trades, of volume 5 against the first buy and of volume 2 against the second, which
  rests with volume 3; the sell is consumed.
\<close>

theorem price_time_priority:
  assumes srt: "is_std_sort srt"
  shows
   "fst (match_orders srt current_tick ob) =
      map (fill_trade current_tick (bids (sorted_book srt ob)) (asks (sorted_book srt ob)))
        (pass_fills srt ob) \<and>
    (no_nan (bids ob) \<longrightarrow>
     (\<forall>l < length (pass_fills srt ob). \<forall>i < length (bids (sorted_book srt ob)).
       price (bids (sorted_book srt ob) ! i) =
         price (bids (sorted_book srt ob) ! bid_idx (pass_fills srt ob ! l)) \<and>
       timestamp (bids (sorted_book srt ob) ! i) <s
         timestamp (bids (sorted_book srt ob) ! bid_idx (pass_fills srt ob ! l))
       \<longrightarrow>
       (\<exists>k<l. bid_idx (pass_fills srt ob ! k) = i) \<and>
       (\<forall>k < length (pass_fills srt ob). bid_idx (pass_fills srt ob ! k) = i \<longrightarrow> k < l))) \<and>
    (no_nan (asks ob) \<longrightarrow>
     (\<forall>l < length (pass_fills srt ob). \<forall>i < length (asks (sorted_book srt ob)).
       price (asks (sorted_book srt ob) ! i) =
         price (asks (sorted_book srt ob) ! ask_idx (pass_fills srt ob ! l)) \<and>
       timestamp (asks (sorted_book srt ob) ! i) <s
         timestamp (asks (sorted_book srt ob) ! ask_idx (pass_fills srt ob ! l))
       \<longrightarrow>
       (\<exists>k<l. ask_idx (pass_fills srt ob ! k) = i) \<and>
       (\<forall>k < length (pass_fills srt ob). ask_idx (pass_fills srt ob ! k) = i \<longrightarrow> k < l))) \<and>
    (\<exists>ex. Exchange_new rank' 1 = Some ex \<and>
       process_orders srt current_tick
           (submit_order \<lparr>agent_id = seller, instrument_id = 0, price = Fin 100, volume = 7,
                           is_buy = False, timestamp = 2, order_id = n\<rparr>
             (submit_order \<lparr>agent_id = buyer1, instrument_id = 0, price = Fin 100, volume = 5,
                             is_buy = True, timestamp = 1, order_id = n\<rparr>
               (submit_order \<lparr>agent_id = buyer0, instrument_id = 0, price = Fin 100, volume = 5,
                               is_buy = True, timestamp = 0, order_id = n\<rparr> ex)))
         = (2, \<lparr>rank = rank', num_instruments = 1,
                 order_books =
                   [\<lparr>bids = [\<lparr>agent_id = buyer1, instrument_id = 0, price = Fin 100, volume = 3,
                               is_buy = True, timestamp = 1, order_id = 2\<rparr>],
                     asks = [], last_price = Fin 100, price_history = [Fin 100, Fin 100, Fin 100]\<rparr>],
                 pending_orders = [],
                 trade_log = [\<lparr>buy_agent_id = buyer0, sell_agent_id = seller,
                                Trade.instrument_id = 0, Trade.price = Fin 100,
                                Trade.volume = 5, Trade.timestamp = current_tick\<rparr>,
                              \<lparr>buy_agent_id = buyer1, sell_agent_id = seller,
                                Trade.instrument_id = 0, Trade.price = Fin 100,
                                Trade.volume = 2, Trade.timestamp = current_tick\<rparr>],
                 next_order_id = 4\<rparr>))"
   (is "?trades \<and> ?bid \<and> ?ask \<and> ?scenario")
proof -
  have "?trades"
    unfolding pass_fills_def sorted_book_def by (simp add: match_orders_trades)
  have "?bid"
  proof
    assume n: "no_nan (bids ob)"
    have sb: "sorted_by bid_cmp (bids (sorted_book srt ob))"
      using srt n by (simp add: is_std_sort_def sorted_book_def)
    have "mset (srt bid_cmp (bids ob)) = mset (bids ob)"
      using srt by (simp add: is_std_sort_def)
    then have nb: "no_nan (bids (sorted_book srt ob))"
      using n no_nan_mset [of "srt bid_cmp (bids ob)" "bids ob"] by (simp add: sorted_book_def)
    show "\<forall>l < length (pass_fills srt ob). \<forall>i < length (bids (sorted_book srt ob)).
       price (bids (sorted_book srt ob) ! i) =
         price (bids (sorted_book srt ob) ! bid_idx (pass_fills srt ob ! l)) \<and>
       timestamp (bids (sorted_book srt ob) ! i) <s
         timestamp (bids (sorted_book srt ob) ! bid_idx (pass_fills srt ob ! l))
       \<longrightarrow>
       (\<exists>k<l. bid_idx (pass_fills srt ob ! k) = i) \<and>
       (\<forall>k < length (pass_fills srt ob). bid_idx (pass_fills srt ob ! k) = i \<longrightarrow> k < l)"
      unfolding pass_fills_def using bid_time_priority [OF sb nb] by simp
  qed
  have "?ask"
  proof
    assume n: "no_nan (asks ob)"
    have sa: "sorted_by ask_cmp (asks (sorted_book srt ob))"
      using srt n by (simp add: is_std_sort_def sorted_book_def)
    have "mset (srt ask_cmp (asks ob)) = mset (asks ob)"
      using srt by (simp add: is_std_sort_def)
    then have na: "no_nan (asks (sorted_book srt ob))"
      using n no_nan_mset [of "srt ask_cmp (asks ob)" "asks ob"] by (simp add: sorted_book_def)
    show "\<forall>l < length (pass_fills srt ob). \<forall>i < length (asks (sorted_book srt ob)).
       price (asks (sorted_book srt ob) ! i) =
         price (asks (sorted_book srt ob) ! ask_idx (pass_fills srt ob ! l)) \<and>
       timestamp (asks (sorted_book srt ob) ! i) <s
         timestamp (asks (sorted_book srt ob) ! ask_idx (pass_fills srt ob ! l))
       \<longrightarrow>
       (\<exists>k<l. ask_idx (pass_fills srt ob ! k) = i) \<and>
       (\<forall>k < length (pass_fills srt ob). ask_idx (pass_fills srt ob ! k) = i \<longrightarrow> k < l)"
      unfolding pass_fills_def using ask_time_priority [OF sa na] by simp
  qed
  let ?ex = "\<lparr>rank = rank', num_instruments = 1, order_books = [OrderBook_new],
                  pending_orders = [], trade_log = [], next_order_id = 1\<rparr>"
  have e: "Exchange_new rank' 1 = Some ?ex"
    by (simp add: Exchange_new_def word_sless_alt)
  let ?b0 = "\<lparr>agent_id = buyer0, instrument_id = 0, price = Fin 100, volume = 5,
              is_buy = True, timestamp = 0, order_id = 1\<rparr>"
  let ?b1 = "\<lparr>agent_id = buyer1, instrument_id = 0, price = Fin 100, volume = 5,
              is_buy = True, timestamp = 1, order_id = 2\<rparr>"
  let ?s = "\<lparr>agent_id = seller, instrument_id = 0, price = Fin 100, volume = 7,
              is_buy = False, timestamp = 2, order_id = 3\<rparr>"
  have "bid_cmp ?b0 ?b1" by (simp add: bid_cmp_def dne_def word_sless_alt)
  moreover have "no_nan [?b0, ?b1]" by (simp add: no_nan_def)
  ultimately have pair: "srt bid_cmp [?b0, ?b1] = [?b0, ?b1]"
    by (rule std_sort_bid_pair [OF srt])
  have m: "match_orders srt current_tick
             \<lparr>bids = [?b0, ?b1], asks = [?s], last_price = Fin 100, price_history = [Fin 100]\<rparr>
           = ([\<lparr>buy_agent_id = buyer0, sell_agent_id = seller,
                                Trade.instrument_id = 0, Trade.price = Fin 100,
                                Trade.volume = 5, Trade.timestamp = current_tick\<rparr>,
                              \<lparr>buy_agent_id = buyer1, sell_agent_id = seller,
                                Trade.instrument_id = 0, Trade.price = Fin 100,
                                Trade.volume = 2, Trade.timestamp = current_tick\<rparr>],
              \<lparr>bids = [?b1\<lparr>volume := 3\<rparr>], asks = [], last_price = Fin 100,
                price_history = [Fin 100, Fin 100, Fin 100]\<rparr>)"
    by (simp add: match_orders_def pair std_sort_single [OF srt] match_loop_unfold loop_eval)
  have "?scenario"
    by (rule exI [of _ ?ex])
       (simp add: e process_orders_def submit_order_def valid_instrument_def add_order_def
        OrderBook_new_def word_sless_alt word_sle_eq match_books_unfold m)
  with \<open>?trades\<close> \<open>?bid\<close> \<open>?ask\<close> show ?thesis by blast
qed

theorem price_time_priority_witness:
  "is_std_sort insertion_sort \<and>
   pass_fills insertion_sort
     \<lparr>bids = [\<lparr>agent_id = 2, instrument_id = 0, price = Fin 100, volume = 5, is_buy = True,
                timestamp = 1, order_id = 2\<rparr>,
              \<lparr>agent_id = 1, instrument_id = 0, price = Fin 100, volume = 5, is_buy = True,
                timestamp = 0, order_id = 1\<rparr>],
       asks = [\<lparr>agent_id = 3, instrument_id = 0, price = Fin 100, volume = 7, is_buy = False,
                timestamp = 2, order_id = 3\<rparr>],
       last_price = Fin 100, price_history = [Fin 100]\<rparr>
   = [\<lparr>bid_idx = 0, ask_idx = 0, bid_remaining = 5, ask_remaining = 7\<rparr>,
      \<lparr>bid_idx = 1, ask_idx = 0, bid_remaining = 5, ask_remaining = 2\<rparr>] \<and>
   fst (match_orders insertion_sort 9
     \<lparr>bids = [\<lparr>agent_id = 2, instrument_id = 0, price = Fin 100, volume = 5, is_buy = True,
                timestamp = 1, order_id = 2\<rparr>,
              \<lparr>agent_id = 1, instrument_id = 0, price = Fin 100, volume = 5, is_buy = True,
                timestamp = 0, order_id = 1\<rparr>],
       asks = [\<lparr>agent_id = 3, instrument_id = 0, price = Fin 100, volume = 7, is_buy = False,
                timestamp = 2, order_id = 3\<rparr>],
       last_price = Fin 100, price_history = [Fin 100]\<rparr>)
   = [\<lparr>buy_agent_id = 1, sell_agent_id = 3, Trade.instrument_id = 0, Trade.price = Fin 100,
        Trade.volume = 5, Trade.timestamp = 9\<rparr>,
      \<lparr>buy_agent_id = 2, sell_agent_id = 3, Trade.instrument_id = 0, Trade.price = Fin 100,
        Trade.volume = 2, Trade.timestamp = 9\<rparr>] \<and>
   no_nan (bids
     \<lparr>bids = [\<lparr>agent_id = 2, instrument_id = 0, price = Fin 100, volume = 5, is_buy = True,
                timestamp = 1, order_id = 2\<rparr>,
              \<lparr>agent_id = 1, instrument_id = 0, price = Fin 100, volume = 5, is_buy = True,
                timestamp = 0, order_id = 1\<rparr>],
       asks = [\<lparr>agent_id = 3, instrument_id = 0, price = Fin 100, volume = 7, is_buy = False,
                timestamp = 2, order_id = 3\<rparr>],
       last_price = Fin 100, price_history = [Fin 100]\<rparr>) \<and>
   (\<exists>k<1. bid_idx (pass_fills insertion_sort
     \<lparr>bids = [\<lparr>agent_id = 2, instrument_id = 0, price = Fin 100, volume = 5, is_buy = True,
                timestamp = 1, order_id = 2\<rparr>,
              \<lparr>agent_id = 1, instrument_id = 0, price = Fin 100, volume = 5, is_buy = True,
                timestamp = 0, order_id = 1\<rparr>],
       asks = [\<lparr>agent_id = 3, instrument_id = 0, price = Fin 100, volume = 7, is_buy = False,
                timestamp = 2, order_id = 3\<rparr>],
       last_price = Fin 100, price_history = [Fin 100]\<rparr> ! k) = 0)"
proof -
  let ?ob = "\<lparr>bids = [\<lparr>agent_id = 2, instrument_id = 0, price = Fin 100, volume = 5, is_buy = True,
                timestamp = 1, order_id = 2\<rparr>,
              \<lparr>agent_id = 1, instrument_id = 0, price = Fin 100, volume = 5, is_buy = True,
                timestamp = 0, order_id = 1\<rparr>],
       asks = [\<lparr>agent_id = 3, instrument_id = 0, price = Fin 100, volume = 7, is_buy = False,
                timestamp = 2, order_id = 3\<rparr>],
       last_price = Fin 100, price_history = [Fin 100]\<rparr>"
  have f: "pass_fills insertion_sort ?ob
     = [\<lparr>bid_idx = 0, ask_idx = 0, bid_remaining = 5, ask_remaining = 7\<rparr>,
        \<lparr>bid_idx = 1, ask_idx = 0, bid_remaining = 5, ask_remaining = 2\<rparr>]"
    by (simp add: fills_eval)
  have b: "bids (sorted_book insertion_sort ?ob) =
             [\<lparr>agent_id = 1, instrument_id = 0, price = Fin 100, volume = 5, is_buy = True,
                timestamp = 0, order_id = 1\<rparr>,
              \<lparr>agent_id = 2, instrument_id = 0, price = Fin 100, volume = 5, is_buy = True,
                timestamp = 1, order_id = 2\<rparr>]"
    and a: "asks (sorted_book insertion_sort ?ob) =
             [\<lparr>agent_id = 3, instrument_id = 0, price = Fin 100, volume = 7, is_buy = False,
                timestamp = 2, order_id = 3\<rparr>]"
    by (simp_all add: sorted_book_def sort_eval word_sless_alt)
  have n: "no_nan (bids ?ob)" by (simp add: no_nan_def)
  note main = price_time_priority [OF insertion_sort_is_std_sort, of 9 ?ob]
  from main
  have "fst (match_orders insertion_sort 9 ?ob) =
      map (fill_trade 9 (bids (sorted_book insertion_sort ?ob)) (asks (sorted_book insertion_sort ?ob)))
        (pass_fills insertion_sort ?ob)" by blast
  then have t: "fst (match_orders insertion_sort 9 ?ob)
   = [\<lparr>buy_agent_id = 1, sell_agent_id = 3, Trade.instrument_id = 0, Trade.price = Fin 100,
        Trade.volume = 5, Trade.timestamp = 9\<rparr>,
      \<lparr>buy_agent_id = 2, sell_agent_id = 3, Trade.instrument_id = 0, Trade.price = Fin 100,
        Trade.volume = 2, Trade.timestamp = 9\<rparr>]"
    by (simp only: f b a) (simp add: fill_trade_def fill_vol_def std_min_def word_sless_alt)
  from main n
  have "\<forall>l < length (pass_fills insertion_sort ?ob).
     \<forall>i < length (bids (sorted_book insertion_sort ?ob)).
       price (bids (sorted_book insertion_sort ?ob) ! i) =
         price (bids (sorted_book insertion_sort ?ob) ! bid_idx (pass_fills insertion_sort ?ob ! l)) \<and>
       timestamp (bids (sorted_book insertion_sort ?ob) ! i) <s
         timestamp (bids (sorted_book insertion_sort ?ob) ! bid_idx (pass_fills insertion_sort ?ob ! l))
       \<longrightarrow>
       (\<exists>k<l. bid_idx (pass_fills insertion_sort ?ob ! k) = i) \<and>
       (\<forall>k < length (pass_fills insertion_sort ?ob).
          bid_idx (pass_fills insertion_sort ?ob ! k) = i \<longrightarrow> k < l)"
    by blast
  from this [rule_format, of 1 0]
  have "\<exists>k<1. bid_idx (pass_fills insertion_sort ?ob ! k) = 0"
    unfolding f b by (simp add: word_sless_alt)
  then show ?thesis
    using insertion_sort_is_std_sort f t n by blast
qed

section \<open>Volumes of the trades\<close>

lemma sint_diff_cases:
  fixes a m :: cint
  assumes "sint m \<le> sint a"
  shows "sint (a - m) = (if sint a - sint m < 2 ^ 31 then sint a - sint m
                         else sint a - sint m - 2 ^ 32)"
proof -
  let ?D = "sint a - sint m"
  have r: "0 \<le> ?D" "?D < 2 ^ 32"
    using assms sint_ge [of m] sint_lt [of a] sint_ge [of a] sint_lt [of m] by simp_all
  have s: "sint (a - m) = signed_take_bit 31 ?D"
    by (simp add: sint_word_ariths)
  show ?thesis
  proof (cases "?D < 2 ^ 31")
    case True
    then show ?thesis using r s by (simp add: signed_take_bit_int_eq_self)
  next
    case False
    have "signed_take_bit 31 ?D = take_bit 32 (?D + 2 ^ 31) - 2 ^ 31"
      by (simp add: signed_take_bit_eq_take_bit_shift)
    also have "take_bit 32 (?D + 2 ^ 31) = (?D + 2 ^ 31) mod 2 ^ 32"
      by (simp add: take_bit_eq_mod)
    also have "(?D + 2 ^ 31) mod 2 ^ 32 = ?D + 2 ^ 31 - 2 ^ 32"
    proof -
      have "(?D + 2 ^ 31) mod 2 ^ 32 = (?D + 2 ^ 31 - 2 ^ 32) mod 2 ^ 32"
        by (simp only: minus_mod_self2)
      also have "\<dots> = ?D + 2 ^ 31 - 2 ^ 32"
        using False r by (intro mod_pos_pos_trivial) simp_all
      finally show ?thesis .
    qed
    finally show ?thesis using False s by simp
  qed
qed


lemma std_min_le:
  "sint (std_min a b) \<le> sint a" "sint (std_min a b) \<le> sint b"
  by (simp_all add: std_min_def word_sless_alt)

lemma executed_step_bid:
  "sint (std_min a b) + \<bar>sint (a - std_min a b)\<bar> \<le> \<bar>sint a\<bar>"
  using sint_diff_cases [OF std_min_le(1) [of a b]] sint_ge [of "a - std_min a b"]
    std_min_le(1) [of a b]
  by (auto split: if_splits)

lemma executed_step_ask:
  "sint (std_min a b) + \<bar>sint (b - std_min a b)\<bar> \<le> \<bar>sint b\<bar>"
  using sint_diff_cases [OF std_min_le(2) [of a b]] sint_ge [of "b - std_min a b"]
    std_min_le(2) [of a b]
  by (auto split: if_splits)


lemma fill_book_bid_volume:
  "i < length (bids ob) \<Longrightarrow>
   volume (bids (fill_book ob bi ai) ! i) =
     (if i = bi then volume (bids ob ! bi) - fill_volume ob bi ai else volume (bids ob ! i))"
  by (simp add: fill_book_def nth_list_update)

lemma fill_book_ask_volume:
  "i < length (asks ob) \<Longrightarrow>
   volume (asks (fill_book ob bi ai) ! i) =
     (if i = ai then volume (asks ob ! ai) - fill_volume ob bi ai else volume (asks ob ! i))"
  by (simp add: fill_book_def nth_list_update)

lemma match_loop_executed_bid:
  "match_loop t ob bi ai ts = (ob2, bi2, ai2, ts2) \<Longrightarrow> i < length (bids ob) \<Longrightarrow>
   (\<Sum>f\<leftarrow>filter (\<lambda>f. bid_idx f = i) (match_fills ob bi ai). sint (fill_vol f))
     + \<bar>sint (volume (bids ob2 ! i))\<bar> \<le> \<bar>sint (volume (bids ob ! i))\<bar>"
proof (induction ob bi ai ts rule: match_loop_induct [where t = t])
  case (step ob bi ai ts)
  show ?case
  proof (cases "crossing ob bi ai")
    case True
    let ?ob' = "fill_book ob bi ai"
    let ?rest = "match_fills ?ob' (next_bi ob bi ai) (next_ai ob bi ai)"
    have "match_loop t ?ob' (next_bi ob bi ai) (next_ai ob bi ai)
                 (ts @ [trade_at t ob bi ai]) = (ob2, bi2, ai2, ts2)"
      using True step.prems by (subst (asm) match_loop_unfold) simp
    from step.IH [OF True this] step.prems(2)
    have ih: "(\<Sum>f\<leftarrow>filter (\<lambda>f. bid_idx f = i) ?rest. sint (fill_vol f))
               + \<bar>sint (volume (bids ob2 ! i))\<bar> \<le> \<bar>sint (volume (bids ?ob' ! i))\<bar>"
      by simp
    have fs: "match_fills ob bi ai =
        \<lparr>bid_idx = bi, ask_idx = ai, bid_remaining = volume (bids ob ! bi),
          ask_remaining = volume (asks ob ! ai)\<rparr> # ?rest"
      using True by (subst match_fills_unfold) simp
    show ?thesis
    proof (cases "i = bi")
      case True
      have "sint (fill_volume ob bi ai) + \<bar>sint (volume (bids ?ob' ! i))\<bar>
              \<le> \<bar>sint (volume (bids ob ! i))\<bar>"
        using executed_step_bid [of "volume (bids ob ! bi)" "volume (asks ob ! ai)"]
          step.prems(2) True
        by (simp add: fill_book_bid_volume fill_volume_def)
      then show ?thesis using ih True by (simp add: fs fill_vol_def fill_volume_def)
    next
      case False
      then show ?thesis using ih step.prems(2) by (simp add: fs fill_book_bid_volume)
    qed
  next
    case False
    then show ?thesis using step.prems
      by (subst (asm) match_loop_unfold, subst match_fills_unfold) auto
  qed
qed

lemma match_loop_executed_ask:
  "match_loop t ob bi ai ts = (ob2, bi2, ai2, ts2) \<Longrightarrow> i < length (asks ob) \<Longrightarrow>
   (\<Sum>f\<leftarrow>filter (\<lambda>f. ask_idx f = i) (match_fills ob bi ai). sint (fill_vol f))
     + \<bar>sint (volume (asks ob2 ! i))\<bar> \<le> \<bar>sint (volume (asks ob ! i))\<bar>"
proof (induction ob bi ai ts rule: match_loop_induct [where t = t])
  case (step ob bi ai ts)
  show ?case
  proof (cases "crossing ob bi ai")
    case True
    let ?ob' = "fill_book ob bi ai"
    let ?rest = "match_fills ?ob' (next_bi ob bi ai) (next_ai ob bi ai)"
    have "match_loop t ?ob' (next_bi ob bi ai) (next_ai ob bi ai)
                 (ts @ [trade_at t ob bi ai]) = (ob2, bi2, ai2, ts2)"
      using True step.prems by (subst (asm) match_loop_unfold) simp
    from step.IH [OF True this] step.prems(2)
    have ih: "(\<Sum>f\<leftarrow>filter (\<lambda>f. ask_idx f = i) ?rest. sint (fill_vol f))
               + \<bar>sint (volume (asks ob2 ! i))\<bar> \<le> \<bar>sint (volume (asks ?ob' ! i))\<bar>"
      by simp
    have fs: "match_fills ob bi ai =
        \<lparr>bid_idx = bi, ask_idx = ai, bid_remaining = volume (bids ob ! bi),
          ask_remaining = volume (asks ob ! ai)\<rparr> # ?rest"
      using True by (subst match_fills_unfold) simp
    show ?thesis
    proof (cases "i = ai")
      case True
      have "sint (fill_volume ob bi ai) + \<bar>sint (volume (asks ?ob' ! i))\<bar>
              \<le> \<bar>sint (volume (asks ob ! i))\<bar>"
        using executed_step_ask [of "volume (bids ob ! bi)" "volume (asks ob ! ai)"]
          step.prems(2) True
        by (simp add: fill_book_ask_volume fill_volume_def)
      then show ?thesis using ih True by (simp add: fs fill_vol_def fill_volume_def)
    next
      case False
      then show ?thesis using ih step.prems(2) by (simp add: fs fill_book_ask_volume)
    qed
  next
    case False
    then show ?thesis using step.prems
      by (subst (asm) match_loop_unfold, subst match_fills_unfold) auto
  qed
qed

lemma match_fills_bid_remaining:
  "k < length (match_fills ob bi ai) \<Longrightarrow>
   bid_remaining (match_fills ob bi ai ! k) =
     volume (bids ob ! bid_idx (match_fills ob bi ai ! k)) -
     sum_list (map fill_vol
       (filter (\<lambda>f. bid_idx f = bid_idx (match_fills ob bi ai ! k))
          (take k (match_fills ob bi ai))))"
proof (induction ob bi ai arbitrary: k rule: match_fills.induct)
  case (1 ob bi ai)
  let ?ob' = "fill_book ob bi ai"
  let ?rest = "match_fills ?ob' (next_bi ob bi ai) (next_ai ob bi ai)"
  let ?f = "\<lparr>bid_idx = bi, ask_idx = ai,
            bid_remaining = volume (bids ob ! bi), ask_remaining = volume (asks ob ! ai)\<rparr>"
  have c: "crossing ob bi ai"
    using "1.prems" by (subst (asm) match_fills_unfold) (auto split: if_splits)
  then have fs: "match_fills ob bi ai = ?f # ?rest"
    by (subst match_fills_unfold) simp
  show ?case
  proof (cases k)
    case 0
    then show ?thesis by (simp add: fs)
  next
    case (Suc k')
    then have k': "k' < length ?rest" using "1.prems" fs by simp
    note ih = "1.IH" [OF c k']
    have r: "bid_idx (?rest ! k') < length (bids ob)"
      using match_fills_bid_trace [OF k'] by simp
    show ?thesis
      using ih r by (simp add: fs Suc fill_book_bid_volume fill_vol_def fill_volume_def)
  qed
qed

lemma match_fills_ask_remaining:
  "k < length (match_fills ob bi ai) \<Longrightarrow>
   ask_remaining (match_fills ob bi ai ! k) =
     volume (asks ob ! ask_idx (match_fills ob bi ai ! k)) -
     sum_list (map fill_vol
       (filter (\<lambda>f. ask_idx f = ask_idx (match_fills ob bi ai ! k))
          (take k (match_fills ob bi ai))))"
proof (induction ob bi ai arbitrary: k rule: match_fills.induct)
  case (1 ob bi ai)
  let ?ob' = "fill_book ob bi ai"
  let ?rest = "match_fills ?ob' (next_bi ob bi ai) (next_ai ob bi ai)"
  let ?f = "\<lparr>bid_idx = bi, ask_idx = ai,
            bid_remaining = volume (bids ob ! bi), ask_remaining = volume (asks ob ! ai)\<rparr>"
  have c: "crossing ob bi ai"
    using "1.prems" by (subst (asm) match_fills_unfold) (auto split: if_splits)
  then have fs: "match_fills ob bi ai = ?f # ?rest"
    by (subst match_fills_unfold) simp
  show ?case
  proof (cases k)
    case 0
    then show ?thesis by (simp add: fs)
  next
    case (Suc k')
    then have k': "k' < length ?rest" using "1.prems" fs by simp
    note ih = "1.IH" [OF c k']
    have r: "ask_idx (?rest ! k') < length (asks ob)"
      using match_fills_ask_trace [OF k'] by simp
    show ?thesis
      using ih r by (simp add: fs Suc fill_book_ask_volume fill_vol_def fill_volume_def)
  qed
qed

lemma bid_volumes_map:
  "bid_volumes fs (map (fill_trade t bs as) fs) i =
   map fill_vol (filter (\<lambda>f. bid_idx f = i) fs)"
  by (induction fs) (simp_all add: bid_volumes_def fill_trade_def)

lemma ask_volumes_map:
  "ask_volumes fs (map (fill_trade t bs as) fs) i =
   map fill_vol (filter (\<lambda>f. ask_idx f = i) fs)"
  by (induction fs) (simp_all add: ask_volumes_def fill_trade_def)


lemma match_loop_index_bounds:
  "match_loop t ob bi ai ts = (ob2, bi2, ai2, ts2) \<Longrightarrow>
   bi \<le> length (bids ob) \<Longrightarrow> ai \<le> length (asks ob) \<Longrightarrow>
   bi2 \<le> length (bids ob) \<and> ai2 \<le> length (asks ob)"
proof (induction ob bi ai ts rule: match_loop_induct [where t = t])
  case (step ob bi ai ts)
  show ?case
  proof (cases "crossing ob bi ai")
    case True
    then have "match_loop t (fill_book ob bi ai) (next_bi ob bi ai) (next_ai ob bi ai)
                 (ts @ [trade_at t ob bi ai]) = (ob2, bi2, ai2, ts2)"
      using step.prems by (subst (asm) match_loop_unfold) simp
    moreover have "next_bi ob bi ai \<le> length (bids (fill_book ob bi ai))"
      "next_ai ob bi ai \<le> length (asks (fill_book ob bi ai))"
      using True next_bi_bounds [of bi ob ai] next_ai_bounds [of ai ob bi]
      by (simp_all add: crossing_def)
    ultimately show ?thesis using step.IH [OF True] by simp
  next
    case False
    then show ?thesis using step.prems by (subst (asm) match_loop_unfold) auto
  qed
qed

lemma match_orders_result:
  obtains ob2 bi2 ai2 where
    "match_loop t (sorted_book srt ob) 0 0 [] = (ob2, bi2, ai2, fst (match_orders srt t ob))"
    "snd (match_orders srt t ob) = ob2\<lparr>bids := drop bi2 (bids ob2), asks := drop ai2 (asks ob2)\<rparr>"
proof -
  obtain ob2 bi2 ai2 ts2 where m: "match_loop t (sorted_book srt ob) 0 0 [] = (ob2, bi2, ai2, ts2)"
    by (metis prod_cases4)
  then have "fst (match_orders srt t ob) = ts2"
    "snd (match_orders srt t ob) = ob2\<lparr>bids := drop bi2 (bids ob2), asks := drop ai2 (asks ob2)\<rparr>"
    by (simp_all add: match_orders_def sorted_book_def)
  with m that show thesis by simp
qed

lemma same_order_but_volume:
  assumes "map (\<lambda>x. x\<lparr>volume := 0\<rparr>) xs = map (\<lambda>x. x\<lparr>volume := 0\<rparr>) ys" and "i < length ys"
  shows "xs ! i = (ys ! i)\<lparr>volume := volume (xs ! i)\<rparr>"
proof -
  have l: "length xs = length ys" using assms(1) by (metis length_map)
  have "(xs ! i)\<lparr>volume := 0\<rparr> = (ys ! i)\<lparr>volume := 0\<rparr>"
    using assms l by (metis nth_map)
  then have "(xs ! i)\<lparr>volume := 0\<rparr>\<lparr>volume := volume (xs ! i)\<rparr> =
             (ys ! i)\<lparr>volume := 0\<rparr>\<lparr>volume := volume (xs ! i)\<rparr>" by simp
  then show ?thesis by simp
qed

lemma sint_std_min: "sint (std_min a b) = min (sint a) (sint b)"
  by (simp add: std_min_def word_sless_alt min_def)

lemma pass_trades:
  "fst (match_orders srt t ob) =
   map (fill_trade t (bids (sorted_book srt ob)) (asks (sorted_book srt ob))) (pass_fills srt ob)"
  unfolding pass_fills_def sorted_book_def by (simp add: match_orders_trades)

lemma pass_each_trade:
  assumes k: "k < length (pass_fills srt ob)"
  shows "bid_idx (pass_fills srt ob ! k) < length (bids (sorted_book srt ob)) \<and>
     ask_idx (pass_fills srt ob ! k) < length (asks (sorted_book srt ob)) \<and>
     Trade.price (fst (match_orders srt t ob) ! k) =
       dmul (dadd (price (bids (sorted_book srt ob) ! bid_idx (pass_fills srt ob ! k)))
                  (price (asks (sorted_book srt ob) ! ask_idx (pass_fills srt ob ! k))))
            (Fin 0.5) \<and>
     bid_remaining (pass_fills srt ob ! k) =
       volume (bids (sorted_book srt ob) ! bid_idx (pass_fills srt ob ! k)) -
       sum_list (bid_volumes (take k (pass_fills srt ob)) (take k (fst (match_orders srt t ob)))
                   (bid_idx (pass_fills srt ob ! k))) \<and>
     ask_remaining (pass_fills srt ob ! k) =
       volume (asks (sorted_book srt ob) ! ask_idx (pass_fills srt ob ! k)) -
       sum_list (ask_volumes (take k (pass_fills srt ob)) (take k (fst (match_orders srt t ob)))
                   (ask_idx (pass_fills srt ob ! k))) \<and>
     sint (Trade.volume (fst (match_orders srt t ob) ! k)) =
       min (sint (bid_remaining (pass_fills srt ob ! k)))
           (sint (ask_remaining (pass_fills srt ob ! k)))"
proof -
  let ?sb = "sorted_book srt ob"
  have k': "k < length (match_fills ?sb 0 0)" using k by (simp add: pass_fills_def)
  have tk: "fst (match_orders srt t ob) ! k =
            fill_trade t (bids ?sb) (asks ?sb) (pass_fills srt ob ! k)"
    using k by (simp add: pass_trades)
  have tt: "take k (fst (match_orders srt t ob)) =
            map (fill_trade t (bids ?sb) (asks ?sb)) (take k (pass_fills srt ob))"
    by (simp add: pass_trades take_map)
  show ?thesis
    using match_fills_bid_trace [OF k'] match_fills_ask_trace [OF k']
      match_fills_bid_remaining [OF k'] match_fills_ask_remaining [OF k']
    by (simp add: tk tt bid_volumes_map ask_volumes_map pass_fills_def [symmetric]
        fill_trade_def fill_vol_def sint_std_min)
qed

lemma pass_executed_bid:
  assumes i: "i < length (bids (sorted_book srt ob))"
  shows "sum_list (map sint (bid_volumes (pass_fills srt ob) (fst (match_orders srt t ob)) i))
           \<le> \<bar>sint (volume (bids (sorted_book srt ob) ! i))\<bar>"
proof -
  obtain ob2 bi2 ai2 where
    m: "match_loop t (sorted_book srt ob) 0 0 [] = (ob2, bi2, ai2, fst (match_orders srt t ob))"
    by (rule match_orders_result)
  from match_loop_executed_bid [OF m i] show ?thesis
    by (simp add: pass_trades bid_volumes_map pass_fills_def [symmetric] comp_def)
qed

lemma pass_executed_ask:
  assumes i: "i < length (asks (sorted_book srt ob))"
  shows "sum_list (map sint (ask_volumes (pass_fills srt ob) (fst (match_orders srt t ob)) i))
           \<le> \<bar>sint (volume (asks (sorted_book srt ob) ! i))\<bar>"
proof -
  obtain ob2 bi2 ai2 where
    m: "match_loop t (sorted_book srt ob) 0 0 [] = (ob2, bi2, ai2, fst (match_orders srt t ob))"
    by (rule match_orders_result)
  from match_loop_executed_ask [OF m i] show ?thesis
    by (simp add: pass_trades ask_volumes_map pass_fills_def [symmetric] comp_def)
qed

lemma pass_resting_bid:
  assumes j: "j < length (bids (snd (match_orders srt t ob)))"
  defines "i \<equiv> j + (length (bids (sorted_book srt ob)) - length (bids (snd (match_orders srt t ob))))"
  shows "i < length (bids (sorted_book srt ob)) \<and>
     bids (snd (match_orders srt t ob)) ! j =
       (bids (sorted_book srt ob) ! i)\<lparr>volume := volume (bids (snd (match_orders srt t ob)) ! j)\<rparr> \<and>
     sum_list (map sint (bid_volumes (pass_fills srt ob) (fst (match_orders srt t ob)) i))
       + \<bar>sint (volume (bids (snd (match_orders srt t ob)) ! j))\<bar>
       \<le> \<bar>sint (volume (bids (sorted_book srt ob) ! i))\<bar>"
proof -
  let ?sb = "sorted_book srt ob"
  obtain ob2 bi2 ai2 where
    m: "match_loop t ?sb 0 0 [] = (ob2, bi2, ai2, fst (match_orders srt t ob))"
    and r: "snd (match_orders srt t ob) = ob2\<lparr>bids := drop bi2 (bids ob2), asks := drop ai2 (asks ob2)\<rparr>"
    by (rule match_orders_result)
  have len: "length (bids ob2) = length (bids ?sb)" using match_loop_exit [OF m] by simp
  have bnd: "bi2 \<le> length (bids ?sb)" using match_loop_index_bounds [OF m] by simp
  have i: "i = bi2 + j" using bnd len by (simp add: i_def r)
  have il: "i < length (bids ?sb)" using j len by (simp add: i r)
  have nth: "bids (snd (match_orders srt t ob)) ! j = bids ob2 ! i"
    using il len by (simp add: r i)
  have keep: "map (\<lambda>x. x\<lparr>volume := 0\<rparr>) (bids ob2) = map (\<lambda>x. x\<lparr>volume := 0\<rparr>) (bids ?sb)"
    using match_loop_keeps [of "\<lambda>x. x\<lparr>volume := 0\<rparr>", OF _ m] by simp
  have "bids ob2 ! i = (bids ?sb ! i)\<lparr>volume := volume (bids ob2 ! i)\<rparr>"
    by (rule same_order_but_volume [OF keep il])
  moreover from match_loop_executed_bid [OF m il]
  have "sum_list (map sint (bid_volumes (pass_fills srt ob) (fst (match_orders srt t ob)) i))
       + \<bar>sint (volume (bids ob2 ! i))\<bar> \<le> \<bar>sint (volume (bids ?sb ! i))\<bar>"
    by (simp add: pass_trades bid_volumes_map pass_fills_def [symmetric] comp_def)
  ultimately show ?thesis using il nth by simp
qed

lemma pass_resting_ask:
  assumes j: "j < length (asks (snd (match_orders srt t ob)))"
  defines "i \<equiv> j + (length (asks (sorted_book srt ob)) - length (asks (snd (match_orders srt t ob))))"
  shows "i < length (asks (sorted_book srt ob)) \<and>
     asks (snd (match_orders srt t ob)) ! j =
       (asks (sorted_book srt ob) ! i)\<lparr>volume := volume (asks (snd (match_orders srt t ob)) ! j)\<rparr> \<and>
     sum_list (map sint (ask_volumes (pass_fills srt ob) (fst (match_orders srt t ob)) i))
       + \<bar>sint (volume (asks (snd (match_orders srt t ob)) ! j))\<bar>
       \<le> \<bar>sint (volume (asks (sorted_book srt ob) ! i))\<bar>"
proof -
  let ?sb = "sorted_book srt ob"
  obtain ob2 bi2 ai2 where
    m: "match_loop t ?sb 0 0 [] = (ob2, bi2, ai2, fst (match_orders srt t ob))"
    and r: "snd (match_orders srt t ob) = ob2\<lparr>bids := drop bi2 (bids ob2), asks := drop ai2 (asks ob2)\<rparr>"
    by (rule match_orders_result)
  have len: "length (asks ob2) = length (asks ?sb)" using match_loop_exit [OF m] by simp
  have bnd: "ai2 \<le> length (asks ?sb)" using match_loop_index_bounds [OF m] by simp
  have i: "i = ai2 + j" using bnd len by (simp add: i_def r)
  have il: "i < length (asks ?sb)" using j len by (simp add: i r)
  have nth: "asks (snd (match_orders srt t ob)) ! j = asks ob2 ! i"
    using il len by (simp add: r i)
  have keep: "map (\<lambda>x. x\<lparr>volume := 0\<rparr>) (asks ob2) = map (\<lambda>x. x\<lparr>volume := 0\<rparr>) (asks ?sb)"
    using match_loop_keeps [of "\<lambda>x. x\<lparr>volume := 0\<rparr>", OF _ m] by simp
  have "asks ob2 ! i = (asks ?sb ! i)\<lparr>volume := volume (asks ob2 ! i)\<rparr>"
    by (rule same_order_but_volume [OF keep il])
  moreover from match_loop_executed_ask [OF m il]
  have "sum_list (map sint (ask_volumes (pass_fills srt ob) (fst (match_orders srt t ob)) i))
       + \<bar>sint (volume (asks ob2 ! i))\<bar> \<le> \<bar>sint (volume (asks ?sb ! i))\<bar>"
    by (simp add: pass_trades ask_volumes_map pass_fills_def [symmetric] comp_def)
  ultimately show ?thesis using il nth by simp
qed

subsection \<open>The life of an order\<close>

lemma held_nonneg: "0 \<le> held uid xs"
  unfolding held_def by (rule sum_list_nonneg) auto

lemma held_append: "held uid (xs @ ys) = held uid xs + held uid ys"
  by (simp add: held_def)

lemma held_drop: "held uid (drop k xs) \<le> held uid xs"
proof -
  have "held uid xs = held uid (take k xs) + held uid (drop k xs)"
    by (simp add: held_append [symmetric])
  then show ?thesis using held_nonneg [of uid "take k xs"] by simp
qed

lemma held_nth:
  "held uid xs = (\<Sum>i\<leftarrow>[0..<length xs]. if order_id (xs ! i) = uid then \<bar>sint (volume (xs ! i))\<bar> else 0)"
proof -
  have "map (\<lambda>i. (\<lambda>x. if order_id x = uid then \<bar>sint (volume x)\<bar> else 0) (xs ! i)) [0..<length xs]
        = map (\<lambda>x. if order_id x = uid then \<bar>sint (volume x)\<bar> else 0) xs"
    by (rule nth_equalityI) simp_all
  then show ?thesis by (simp add: held_def)
qed

lemma held_mset: "mset xs = mset ys \<Longrightarrow> held uid xs = held uid ys"
proof -
  assume "mset xs = mset ys"
  then have "mset (map (\<lambda>x. if order_id x = uid then \<bar>sint (volume x)\<bar> else 0) xs) =
             mset (map (\<lambda>x. if order_id x = uid then \<bar>sint (volume x)\<bar> else 0) ys)"
    by simp
  then have "sum_mset (mset (map (\<lambda>x. if order_id x = uid then \<bar>sint (volume x)\<bar> else 0) xs)) =
             sum_mset (mset (map (\<lambda>x. if order_id x = uid then \<bar>sint (volume x)\<bar> else 0) ys))"
    by simp
  then show ?thesis by (simp only: sum_mset_sum_list held_def)
qed

lemma held_other: "order_id y \<noteq> uid \<Longrightarrow> held uid (xs @ [y]) = held uid xs"
  by (simp add: held_def)

lemma held_none: "\<forall>y \<in> set xs. order_id y \<noteq> uid \<Longrightarrow> held uid xs = 0"
  by (induction xs) (simp_all add: held_def)

lemma pass_held_bids:
  assumes "is_std_sort srt"
  shows "(\<Sum>i\<leftarrow>[0..<length (bids (sorted_book srt ob))].
            if order_id (bids (sorted_book srt ob) ! i) = uid
            then sum_list (map sint (bid_volumes (pass_fills srt ob) (fst (match_orders srt t ob)) i))
            else 0)
         + held uid (bids (snd (match_orders srt t ob))) \<le> held uid (bids ob)"
proof -
  let ?bs = "bids (sorted_book srt ob)"
  let ?E = "\<lambda>i. sum_list (map sint (bid_volumes (pass_fills srt ob) (fst (match_orders srt t ob)) i))"
  obtain ob2 bi2 ai2 where
    m: "match_loop t (sorted_book srt ob) 0 0 [] = (ob2, bi2, ai2, fst (match_orders srt t ob))"
    and r: "snd (match_orders srt t ob) = ob2\<lparr>bids := drop bi2 (bids ob2), asks := drop ai2 (asks ob2)\<rparr>"
    by (rule match_orders_result)
  have len: "length (bids ob2) = length ?bs" using match_loop_exit [OF m] by simp
  have ids: "map order_id (bids ob2) = map order_id ?bs"
    using match_loop_keeps [of order_id, OF _ m] by simp
  have id: "order_id (bids ob2 ! i) = order_id (?bs ! i)" if "i < length ?bs" for i
    using that ids len by (metis nth_map)
  have e: "?E i + \<bar>sint (volume (bids ob2 ! i))\<bar> \<le> \<bar>sint (volume (?bs ! i))\<bar>"
    if "i < length ?bs" for i
    using match_loop_executed_bid [OF m that]
    by (simp add: pass_trades bid_volumes_map pass_fills_def [symmetric] comp_def)
  have "held uid (bids (snd (match_orders srt t ob))) \<le> held uid (bids ob2)"
    by (simp add: r held_drop)
  also have "held uid (bids ob2) =
      (\<Sum>i\<leftarrow>[0..<length ?bs]. if order_id (?bs ! i) = uid then \<bar>sint (volume (bids ob2 ! i))\<bar> else 0)"
    unfolding held_nth len by (rule arg_cong [where f = sum_list]) (simp add: id)
  finally have "(\<Sum>i\<leftarrow>[0..<length ?bs]. if order_id (?bs ! i) = uid then ?E i else 0)
        + held uid (bids (snd (match_orders srt t ob)))
     \<le> (\<Sum>i\<leftarrow>[0..<length ?bs]. if order_id (?bs ! i) = uid then ?E i else 0)
        + (\<Sum>i\<leftarrow>[0..<length ?bs]. if order_id (?bs ! i) = uid then \<bar>sint (volume (bids ob2 ! i))\<bar> else 0)"
    by simp
  also have "\<dots> = (\<Sum>i\<leftarrow>[0..<length ?bs].
        (if order_id (?bs ! i) = uid then ?E i else 0) +
        (if order_id (?bs ! i) = uid then \<bar>sint (volume (bids ob2 ! i))\<bar> else 0))"
    by (simp only: sum_list_addf)
  also have "\<dots> \<le> (\<Sum>i\<leftarrow>[0..<length ?bs].
        if order_id (?bs ! i) = uid then \<bar>sint (volume (?bs ! i))\<bar> else 0)"
    by (rule sum_list_mono) (use e in auto)
  also have "\<dots> = held uid ?bs" by (simp only: held_nth)
  also have "\<dots> = held uid (bids ob)"
    using assms by (intro held_mset) (simp add: is_std_sort_def sorted_book_def)
  finally show ?thesis .
qed


lemma pass_held_asks:
  assumes "is_std_sort srt"
  shows "(\<Sum>i\<leftarrow>[0..<length (asks (sorted_book srt ob))].
            if order_id (asks (sorted_book srt ob) ! i) = uid
            then sum_list (map sint (ask_volumes (pass_fills srt ob) (fst (match_orders srt t ob)) i))
            else 0)
         + held uid (asks (snd (match_orders srt t ob))) \<le> held uid (asks ob)"
proof -
  let ?bs = "asks (sorted_book srt ob)"
  let ?E = "\<lambda>i. sum_list (map sint (ask_volumes (pass_fills srt ob) (fst (match_orders srt t ob)) i))"
  obtain ob2 bi2 ai2 where
    m: "match_loop t (sorted_book srt ob) 0 0 [] = (ob2, bi2, ai2, fst (match_orders srt t ob))"
    and r: "snd (match_orders srt t ob) = ob2\<lparr>bids := drop bi2 (bids ob2), asks := drop ai2 (asks ob2)\<rparr>"
    by (rule match_orders_result)
  have len: "length (asks ob2) = length ?bs" using match_loop_exit [OF m] by simp
  have ids: "map order_id (asks ob2) = map order_id ?bs"
    using match_loop_keeps [of order_id, OF _ m] by simp
  have id: "order_id (asks ob2 ! i) = order_id (?bs ! i)" if "i < length ?bs" for i
    using that ids len by (metis nth_map)
  have e: "?E i + \<bar>sint (volume (asks ob2 ! i))\<bar> \<le> \<bar>sint (volume (?bs ! i))\<bar>"
    if "i < length ?bs" for i
    using match_loop_executed_ask [OF m that]
    by (simp add: pass_trades ask_volumes_map pass_fills_def [symmetric] comp_def)
  have "held uid (asks (snd (match_orders srt t ob))) \<le> held uid (asks ob2)"
    by (simp add: r held_drop)
  also have "held uid (asks ob2) =
      (\<Sum>i\<leftarrow>[0..<length ?bs]. if order_id (?bs ! i) = uid then \<bar>sint (volume (asks ob2 ! i))\<bar> else 0)"
    unfolding held_nth len by (rule arg_cong [where f = sum_list]) (simp add: id)
  finally have "(\<Sum>i\<leftarrow>[0..<length ?bs]. if order_id (?bs ! i) = uid then ?E i else 0)
        + held uid (asks (snd (match_orders srt t ob)))
     \<le> (\<Sum>i\<leftarrow>[0..<length ?bs]. if order_id (?bs ! i) = uid then ?E i else 0)
        + (\<Sum>i\<leftarrow>[0..<length ?bs]. if order_id (?bs ! i) = uid then \<bar>sint (volume (asks ob2 ! i))\<bar> else 0)"
    by simp
  also have "\<dots> = (\<Sum>i\<leftarrow>[0..<length ?bs].
        (if order_id (?bs ! i) = uid then ?E i else 0) +
        (if order_id (?bs ! i) = uid then \<bar>sint (volume (asks ob2 ! i))\<bar> else 0))"
    by (simp only: sum_list_addf)
  also have "\<dots> \<le> (\<Sum>i\<leftarrow>[0..<length ?bs].
        if order_id (?bs ! i) = uid then \<bar>sint (volume (?bs ! i))\<bar> else 0)"
    by (rule sum_list_mono) (use e in auto)
  also have "\<dots> = held uid ?bs" by (simp only: held_nth)
  also have "\<dots> = held uid (asks ob)"
    using assms by (intro held_mset) (simp add: is_std_sort_def sorted_book_def)
  finally show ?thesis .
qed

lemma pass_held:
  assumes "is_std_sort srt"
  shows "executed_against uid srt t ob
           + held uid (bids (snd (match_orders srt t ob)))
           + held uid (asks (snd (match_orders srt t ob)))
         \<le> held uid (bids ob) + held uid (asks ob)"
  using pass_held_bids [OF assms, of ob uid t] pass_held_asks [OF assms, of ob uid t]
  by (simp add: executed_against_def)

lemma order_life_invariant:
  assumes "is_std_sort srt"
  shows "order_life srt x ob e \<Longrightarrow>
         e + held (order_id x) (bids ob) + held (order_id x) (asks ob) \<le> \<bar>sint (volume x)\<bar>"
proof (induction rule: order_life.induct)
  case (submitted ob)
  then have "held (order_id x) (bids ob) = 0" "held (order_id x) (asks ob) = 0"
    by (simp_all add: held_none)
  then show ?case by (simp add: add_order_def held_append) (simp add: held_def)
next
  case (other ob e y)
  then show ?case by (simp add: add_order_def held_other)
next
  case (pass ob e current_tick)
  then show ?case using pass_held [OF assms, of "order_id x" current_tick ob] by simp
qed

lemma order_life_bound:
  assumes "is_std_sort srt" and "order_life srt x ob e" and "0 \<le> sint (volume x)"
  shows "e \<le> sint (volume x)"
  using order_life_invariant [OF assms(1,2)] assms(3)
    held_nonneg [of "order_id x" "bids ob"] held_nonneg [of "order_id x" "asks ob"]
  by simp

section \<open>Order ids\<close>

lemma submit_all_Cons: "submit_all (x # xs) ex = submit_all xs (submit_order x ex)"
  by (simp add: submit_all_def)

lemma submit_all_state:
  "pending_orders (submit_all os ex) =
     pending_orders ex @
     map (\<lambda>k. (os ! k)\<lparr>order_id := next_order_id ex + word_of_nat k\<rparr>) [0..<length os] \<and>
   next_order_id (submit_all os ex) = next_order_id ex + word_of_nat (length os) \<and>
   order_books (submit_all os ex) = order_books ex \<and>
   trade_log (submit_all os ex) = trade_log ex"
proof (induction os arbitrary: ex)
  case Nil
  show ?case by (simp add: submit_all_def)
next
  case (Cons x xs)
  have "map (\<lambda>k. ((x # xs) ! k)\<lparr>order_id := next_order_id ex + word_of_nat k\<rparr>) [0..<length (x # xs)]
        = x\<lparr>order_id := next_order_id ex\<rparr> #
          map (\<lambda>k. (xs ! k)\<lparr>order_id := next_order_id ex + 1 + word_of_nat k\<rparr>) [0..<length xs]"
    by (simp add: map_upt_Suc del: upt_Suc add: add.assoc)
  then show ?case
    using Cons.IH [of "submit_order x ex"]
    by (simp add: submit_all_Cons submit_order_def add.assoc)
qed

lemma submitted_eq:
  "submitted os ex =
     map (\<lambda>k. (os ! k)\<lparr>order_id := next_order_id ex + word_of_nat k\<rparr>) [0..<length os]"
  by (simp add: submitted_def submit_all_state)

lemma sint_add_of_nat:
  fixes c :: cint
  assumes "sint c + int k < 2 ^ 31"
  shows "sint (c + word_of_nat k) = sint c + int k"
proof -
  have "c + word_of_nat k = word_of_int (sint c + int k)" by simp
  then have "sint (c + word_of_nat k) = signed_take_bit 31 (sint c + int k)"
    by (simp only: sint_sbintrunc') simp
  moreover have "- (2 ^ 31) \<le> sint c + int k" using sint_ge [of c] by simp
  ultimately show ?thesis using assms by (simp add: signed_take_bit_int_eq_self)
qed

lemma sorted_submitted_nth:
  assumes "sorted_wrt (\<lambda>a b. order_id a <s order_id b) (submitted os ex)"
    and "i < j" and "j < length os"
  shows "next_order_id ex + word_of_nat i <s next_order_id ex + word_of_nat j"
  using sorted_wrt_nth_less [OF assms(1), of i j] assms(2,3) by (simp add: submitted_eq)

text \<open>
  Claim C4, as stated: for every sequence of calls of \<^verbatim>\<open>submit_order\<close> the ids are
  strictly increasing. The counter is a 32-bit \<^verbatim>\<open>int\<close> that starts at 1: the call number
  \<open>2\<^sup>3\<^sup>1\<close> on a new exchange increments it past \<^verbatim>\<open>INT_MAX\<close>, and with two's-complement
  wrap-around its order gets the id \<open>- 2\<^sup>3\<^sup>1\<close>, below the id \<open>2\<^sup>3\<^sup>1 - 1\<close> of the call
  before.
\<close>

theorem order_ids_wrap_counterexample:
  "\<not> sorted_wrt (\<lambda>a b. order_id a <s order_id b)
      (submitted
         (replicate 2147483648
            \<lparr>agent_id = 0, instrument_id = 0, price = Fin 100, volume = 1, is_buy = True,
              timestamp = 0, order_id = 0\<rparr>)
         \<lparr>rank = 0, num_instruments = 1, order_books = [OrderBook_new],
           pending_orders = [], trade_log = [], next_order_id = 1\<rparr>)"
proof
  assume "sorted_wrt (\<lambda>a b. order_id a <s order_id b)
      (submitted
         (replicate 2147483648
            \<lparr>agent_id = 0, instrument_id = 0, price = Fin 100, volume = 1, is_buy = True,
              timestamp = 0, order_id = 0\<rparr>)
         \<lparr>rank = 0, num_instruments = 1, order_books = [OrderBook_new],
           pending_orders = [], trade_log = [], next_order_id = 1\<rparr>)"
  from sorted_submitted_nth [OF this, of 2147483646 2147483647]
  show False by (simp add: word_sless_alt)
qed

text \<open>
  Claim C4, amended: as long as the ids given do not pass \<^verbatim>\<open>INT_MAX\<close> (on a new exchange,
  for at most \<open>2\<^sup>3\<^sup>1 - 1\<close> calls), every order of the sequence is put on the queue, in the
  order of the calls, the ids are the successive values of the counter, and they are
  strictly increasing and pairwise distinct.
\<close>

theorem order_ids_increase_below_overflow:
  assumes "sint (next_order_id ex) + int (length os) \<le> 2 ^ 31"
  shows "pending_orders (submit_all os ex) = pending_orders ex @ submitted os ex \<and>
         length (submitted os ex) = length os \<and>
         (\<forall>k < length os.
            submitted os ex ! k = (os ! k)\<lparr>order_id := order_id (submitted os ex ! k)\<rparr> \<and>
            sint (order_id (submitted os ex ! k)) = sint (next_order_id ex) + int k) \<and>
         sorted_wrt (\<lambda>a b. order_id a <s order_id b) (submitted os ex) \<and>
         distinct (map order_id (submitted os ex))"
proof -
  have id: "sint (order_id (submitted os ex ! k)) = sint (next_order_id ex) + int k"
    if "k < length os" for k
    using that assms sint_add_of_nat [of "next_order_id ex" k] by (simp add: submitted_eq)
  have s: "sorted_wrt (\<lambda>a b. order_id a <s order_id b) (submitted os ex)"
    unfolding sorted_wrt_iff_nth_less
  proof (intro allI impI)
    fix i j assume "i < j" "j < length (submitted os ex)"
    then have "i < length os" "j < length os" by (simp_all add: submitted_eq)
    then show "order_id (submitted os ex ! i) <s order_id (submitted os ex ! j)"
      using id \<open>i < j\<close> by (simp add: word_sless_alt)
  qed
  have d: "distinct (map order_id (submitted os ex))"
    unfolding distinct_conv_nth
  proof (intro allI impI)
    fix i j assume a: "i < length (map order_id (submitted os ex))"
      "j < length (map order_id (submitted os ex))" "i \<noteq> j"
    then have "i < length os" "j < length os" by (simp_all add: submitted_eq)
    then have "sint (order_id (submitted os ex ! i)) \<noteq> sint (order_id (submitted os ex ! j))"
      using id a(3) by simp
    then show "map order_id (submitted os ex) ! i \<noteq> map order_id (submitted os ex) ! j"
      using a by auto
  qed
  have "pending_orders (submit_all os ex) = pending_orders ex @ submitted os ex"
    by (simp add: submitted_eq submit_all_state)
  moreover have "length (submitted os ex) = length os" by (simp add: submitted_eq)
  moreover have "\<forall>k < length os.
            submitted os ex ! k = (os ! k)\<lparr>order_id := order_id (submitted os ex ! k)\<rparr>"
    by (simp add: submitted_eq)
  ultimately show ?thesis using id s d by simp
qed


theorem order_ids_increase_below_overflow_witness:
  "sint (next_order_id \<lparr>rank = 0, num_instruments = 1, order_books = [OrderBook_new],
           pending_orders = [], trade_log = [], next_order_id = 1\<rparr>)
     + int (length [\<lparr>agent_id = 7, instrument_id = 0, price = Fin 101, volume = 10, is_buy = True,
                     timestamp = 0, order_id = 0\<rparr>,
                   \<lparr>agent_id = 8, instrument_id = 0, price = Fin 99, volume = 10, is_buy = False,
                     timestamp = 0, order_id = 0\<rparr>]) \<le> 2 ^ 31 \<and>
   pending_orders (submit_all
       [\<lparr>agent_id = 7, instrument_id = 0, price = Fin 101, volume = 10, is_buy = True,
          timestamp = 0, order_id = 0\<rparr>,
        \<lparr>agent_id = 8, instrument_id = 0, price = Fin 99, volume = 10, is_buy = False,
          timestamp = 0, order_id = 0\<rparr>]
       \<lparr>rank = 0, num_instruments = 1, order_books = [OrderBook_new],
         pending_orders = [], trade_log = [], next_order_id = 1\<rparr>)
   = [\<lparr>agent_id = 7, instrument_id = 0, price = Fin 101, volume = 10, is_buy = True,
        timestamp = 0, order_id = 1\<rparr>,
      \<lparr>agent_id = 8, instrument_id = 0, price = Fin 99, volume = 10, is_buy = False,
        timestamp = 0, order_id = 2\<rparr>] \<and>
   sorted_wrt (\<lambda>a b. order_id a <s order_id b)
     (submitted
       [\<lparr>agent_id = 7, instrument_id = 0, price = Fin 101, volume = 10, is_buy = True,
          timestamp = 0, order_id = 0\<rparr>,
        \<lparr>agent_id = 8, instrument_id = 0, price = Fin 99, volume = 10, is_buy = False,
          timestamp = 0, order_id = 0\<rparr>]
       \<lparr>rank = 0, num_instruments = 1, order_books = [OrderBook_new],
         pending_orders = [], trade_log = [], next_order_id = 1\<rparr>)"
proof -
  let ?ex = "\<lparr>rank = 0, num_instruments = 1, order_books = [OrderBook_new],
           pending_orders = [], trade_log = [], next_order_id = 1\<rparr>"
  let ?os = "[\<lparr>agent_id = 7, instrument_id = 0, price = Fin 101, volume = 10, is_buy = True,
                     timestamp = 0, order_id = 0\<rparr>,
                   \<lparr>agent_id = 8, instrument_id = 0, price = Fin 99, volume = 10, is_buy = False,
                     timestamp = 0, order_id = 0\<rparr>]"
  have h: "sint (next_order_id ?ex) + int (length ?os) \<le> 2 ^ 31" by simp
  have p: "pending_orders (submit_all ?os ?ex) =
      [\<lparr>agent_id = 7, instrument_id = 0, price = Fin 101, volume = 10, is_buy = True,
        timestamp = 0, order_id = 1\<rparr>,
      \<lparr>agent_id = 8, instrument_id = 0, price = Fin 99, volume = 10, is_buy = False,
        timestamp = 0, order_id = 2\<rparr>]"
    by (simp add: submit_all_def submit_order_def)
  show ?thesis
    using h p order_ids_increase_below_overflow [OF h] by blast
qed

section \<open>Routing of the pending orders\<close>

lemma length_route_pending [simp]: "length (route_pending q obs) = length obs"
  by (induction q arbitrary: obs) simp_all

lemma valid_instrument_length:
  "length obs' = length obs \<Longrightarrow> valid_instrument obs' i = valid_instrument obs i"
  by (simp add: valid_instrument_def)

lemma sint_size:
  "n < 2 ^ 31 \<Longrightarrow> sint (word_of_nat n :: cint) = int n"
  by (simp add: signed_of_nat signed_take_bit_int_eq_self)

lemma valid_instrument_iff:
  assumes "length obs < 2 ^ 31"
  shows "valid_instrument obs i \<longleftrightarrow> 0 \<le> sint i \<and> sint i < int (length obs)"
  using sint_size [OF assms] by (simp add: valid_instrument_def word_sle_eq word_sless_alt)

lemma route_pending_filter:
  "route_pending q obs =
   route_pending (filter (\<lambda>x. valid_instrument obs (instrument_id x)) q) obs"
proof (induction q arbitrary: obs)
  case Nil
  show ?case by simp
next
  case (Cons x q)
  show ?case
  proof (cases "valid_instrument obs (instrument_id x)")
    case True
    let ?obs' = "obs[nat (sint (instrument_id x)) :=
                   add_order x (obs ! nat (sint (instrument_id x)))]"
    have "valid_instrument ?obs' = valid_instrument obs"
      by (intro ext valid_instrument_length) simp
    then show ?thesis using True Cons.IH [of ?obs'] by simp
  next
    case False
    then show ?thesis using Cons.IH [of obs] by simp
  qed
qed

lemma route_pending_nth:
  assumes "length obs < 2 ^ 31" and "i < length obs"
  shows "route_pending q obs ! i =
         foldl (\<lambda>ob x. add_order x ob) (obs ! i) (filter (\<lambda>x. sint (instrument_id x) = int i) q)"
  using assms
proof (induction q arbitrary: obs)
  case Nil
  show ?case by simp
next
  case (Cons x q)
  let ?k = "nat (sint (instrument_id x))"
  let ?obs' = "if valid_instrument obs (instrument_id x)
               then obs[?k := add_order x (obs ! ?k)] else obs"
  have l: "length ?obs' = length obs" by simp
  have v: "valid_instrument obs (instrument_id x) \<longleftrightarrow>
           0 \<le> sint (instrument_id x) \<and> sint (instrument_id x) < int (length obs)"
    by (rule valid_instrument_iff [OF Cons.prems(1)])
  have n: "?obs' ! i = (if sint (instrument_id x) = int i then add_order x (obs ! i) else obs ! i)"
    using Cons.prems(2) v by (auto simp: nth_list_update)
  have "route_pending (x # q) obs ! i = route_pending q ?obs' ! i" by simp
  also have "\<dots> = foldl (\<lambda>ob x. add_order x ob) (?obs' ! i)
                     (filter (\<lambda>x. sint (instrument_id x) = int i) q)"
    using Cons.IH [of ?obs'] Cons.prems l by simp
  finally show ?case by (simp add: n)
qed

lemma match_books_pending:
  "pending_orders (snd (match_books srt t ex i n)) = pending_orders ex"
proof (induction srt t ex i n rule: match_books.induct)
  case (1 srt t ex i n)
  show ?case
  proof (cases "i < length (order_books ex)")
    case True
    obtain tr ob' where m: "match_orders srt t (order_books ex ! i) = (tr, ob')"
      by (cases "match_orders srt t (order_books ex ! i)")
    from "1.IH" [OF True m [symmetric] refl] True m show ?thesis
      by (subst match_books.simps) simp
  next
    case False
    then show ?thesis by (subst match_books.simps) simp
  qed
qed


section \<open>Volumes of the resting orders\<close>

lemma positive_remainder:
  fixes a b :: cint
  assumes "0 <s a" and "0 <s b"
  shows "(a - std_min a b = 0 \<or> 0 <s a - std_min a b) \<and>
         (b - std_min a b = 0 \<or> 0 <s b - std_min a b)"
proof -
  have pa: "0 < sint a" and pb: "0 < sint b" using assms by (simp_all add: word_sless_alt)
  have m: "0 < sint (std_min a b)" using pa pb by (simp add: sint_std_min)
  have sa: "sint (a - std_min a b) = sint a - sint (std_min a b)"
    using sint_diff_cases [OF std_min_le(1) [of a b]] m sint_lt [of a] by simp
  have sb: "sint (b - std_min a b) = sint b - sint (std_min a b)"
    using sint_diff_cases [OF std_min_le(2) [of a b]] m sint_lt [of b] by simp
  have z: "x = 0 \<or> 0 <s x" if "0 \<le> sint x" for x :: cint
    using that by (cases "x = 0") (auto simp: word_sless_alt signed_eq_0_iff order_less_le)
  have "0 \<le> sint (a - std_min a b)" using sa std_min_le(1) [of a b] by simp
  moreover have "0 \<le> sint (b - std_min a b)" using sb std_min_le(2) [of a b] by simp
  ultimately show ?thesis using z by blast
qed

lemma match_loop_positive:
  "match_loop t ob bi ai ts = (ob2, bi2, ai2, ts2) \<Longrightarrow>
   positive_volumes (drop bi (bids ob)) \<Longrightarrow> positive_volumes (drop ai (asks ob)) \<Longrightarrow>
   positive_volumes (drop bi2 (bids ob2)) \<and> positive_volumes (drop ai2 (asks ob2))"
proof (induction ob bi ai ts rule: match_loop_induct [where t = t])
  case (step ob bi ai ts)
  show ?case
  proof (cases "crossing ob bi ai")
    case True
    let ?ob' = "fill_book ob bi ai"
    have m: "match_loop t ?ob' (next_bi ob bi ai) (next_ai ob bi ai)
                 (ts @ [trade_at t ob bi ai]) = (ob2, bi2, ai2, ts2)"
      using True step.prems by (subst (asm) match_loop_unfold) simp
    have bi: "bi < length (bids ob)" and ai: "ai < length (asks ob)"
      using True by (simp_all add: crossing_def)
    have db: "drop bi (bids ob) = bids ob ! bi # drop (Suc bi) (bids ob)"
      using bi by (simp add: Cons_nth_drop_Suc)
    have da: "drop ai (asks ob) = asks ob ! ai # drop (Suc ai) (asks ob)"
      using ai by (simp add: Cons_nth_drop_Suc)
    have pa: "0 <s volume (bids ob ! bi)" "positive_volumes (drop (Suc bi) (bids ob))"
      using step.prems(2) by (simp_all add: db positive_volumes_def)
    have pb: "0 <s volume (asks ob ! ai)" "positive_volumes (drop (Suc ai) (asks ob))"
      using step.prems(3) by (simp_all add: da positive_volumes_def)
    note r = positive_remainder [OF pa(1) pb(1)]
    have "positive_volumes (drop (next_bi ob bi ai) (bids ?ob'))"
    proof (cases "volume (bids ob ! bi) - fill_volume ob bi ai = 0")
      case True
      then show ?thesis using pa(2) by (simp add: next_bi_def fill_book_def)
    next
      case False
      then have "0 <s volume (bids ob ! bi) - fill_volume ob bi ai"
        using r by (simp add: fill_volume_def)
      then show ?thesis using False pa(2) bi
        by (simp add: next_bi_def fill_book_def drop_update_cancel Cons_nth_drop_Suc [symmetric]
            positive_volumes_def)
    qed
    moreover have "positive_volumes (drop (next_ai ob bi ai) (asks ?ob'))"
    proof (cases "volume (asks ob ! ai) - fill_volume ob bi ai = 0")
      case True
      then show ?thesis using pb(2) by (simp add: next_ai_def fill_book_def)
    next
      case False
      then have "0 <s volume (asks ob ! ai) - fill_volume ob bi ai"
        using r by (simp add: fill_volume_def)
      then show ?thesis using False pb(2) ai
        by (simp add: next_ai_def fill_book_def drop_update_cancel Cons_nth_drop_Suc [symmetric]
            positive_volumes_def)
    qed
    ultimately show ?thesis using step.IH [OF True m] by simp
  next
    case False
    then show ?thesis using step.prems by (subst (asm) match_loop_unfold) auto
  qed
qed


lemma match_orders_positive:
  assumes "is_std_sort srt" and "positive_book ob"
  shows "positive_book (snd (match_orders srt t ob))"
proof -
  obtain ob2 bi2 ai2 where
    m: "match_loop t (sorted_book srt ob) 0 0 [] = (ob2, bi2, ai2, fst (match_orders srt t ob))"
    and r: "snd (match_orders srt t ob) = ob2\<lparr>bids := drop bi2 (bids ob2), asks := drop ai2 (asks ob2)\<rparr>"
    by (rule match_orders_result)
  have "set (bids (sorted_book srt ob)) = set (bids ob)" "set (asks (sorted_book srt ob)) = set (asks ob)"
    using assms(1) by (auto simp: is_std_sort_def sorted_book_def dest: mset_eq_setD)
  then have "positive_volumes (drop 0 (bids (sorted_book srt ob)))"
    "positive_volumes (drop 0 (asks (sorted_book srt ob)))"
    using assms(2) by (simp_all add: positive_book_def positive_volumes_def)
  from match_loop_positive [OF m this] show ?thesis
    by (simp add: r positive_book_def)
qed

lemma add_order_positive:
  "positive_book ob \<Longrightarrow> 0 <s volume x \<Longrightarrow> positive_book (add_order x ob)"
  by (simp add: add_order_def positive_book_def positive_volumes_def)

lemma route_pending_positive:
  "positive_volumes q \<Longrightarrow> \<forall>ob \<in> set obs. positive_book ob \<Longrightarrow>
   \<forall>ob \<in> set (route_pending q obs). positive_book ob"
proof (induction q arbitrary: obs)
  case Nil
  then show ?case by simp
next
  case (Cons x q)
  let ?k = "nat (sint (instrument_id x))"
  let ?obs' = "if valid_instrument obs (instrument_id x)
               then obs[?k := add_order x (obs ! ?k)] else obs"
  have x: "0 <s volume x" and q: "positive_volumes q"
    using Cons.prems(1) by (simp_all add: positive_volumes_def)
  have "\<forall>ob \<in> set ?obs'. positive_book ob"
  proof (cases "valid_instrument obs (instrument_id x) \<and> ?k < length obs")
    case True
    then have "positive_book (add_order x (obs ! ?k))"
      using Cons.prems(2) x by (intro add_order_positive) simp_all
    then show ?thesis using Cons.prems(2) True
      by (auto dest!: set_update_subset_insert [THEN subsetD])
  next
    case False
    then show ?thesis using Cons.prems(2) by (auto simp: list_update_beyond)
  qed
  from Cons.IH [OF q this] show ?case by simp
qed

lemma match_books_positive:
  "is_std_sort srt \<Longrightarrow> \<forall>ob \<in> set (order_books ex). positive_book ob \<Longrightarrow>
   \<forall>ob \<in> set (order_books (snd (match_books srt t ex i n))). positive_book ob"
proof (induction srt t ex i n rule: match_books.induct)
  case (1 srt t ex i n)
  show ?case
  proof (cases "i < length (order_books ex)")
    case True
    obtain tr ob' where m: "match_orders srt t (order_books ex ! i) = (tr, ob')"
      by (cases "match_orders srt t (order_books ex ! i)")
    let ?ex' = "ex\<lparr>order_books := (order_books ex)[i := ob'], trade_log := trade_log ex @ tr\<rparr>"
    have "positive_book ob'"
      using match_orders_positive [OF "1.prems"(1), of "order_books ex ! i" t] "1.prems"(2) True m
      by simp
    then have "\<forall>ob \<in> set (order_books ?ex'). positive_book ob"
      using "1.prems"(2) by (auto dest!: set_update_subset_insert [THEN subsetD])
    from "1.IH" [OF True m [symmetric] refl "1.prems"(1) this] True m show ?thesis
      by (subst match_books.simps) simp
  next
    case False
    then show ?thesis using "1.prems" by (subst match_books.simps) simp
  qed
qed

lemma process_orders_positive:
  assumes "is_std_sort srt" and "positive_volumes (pending_orders ex)"
    and "\<forall>ob \<in> set (order_books ex). positive_book ob"
  shows "positive_volumes (pending_orders (snd (process_orders srt t ex))) \<and>
         (\<forall>ob \<in> set (order_books (snd (process_orders srt t ex))). positive_book ob)"
proof -
  let ?ex' = "ex\<lparr>order_books := route_pending (pending_orders ex) (order_books ex),
                   pending_orders := []\<rparr>"
  have "\<forall>ob \<in> set (route_pending (pending_orders ex) (order_books ex)). positive_book ob"
    by (rule route_pending_positive [OF assms(2,3)])
  then have "\<forall>ob \<in> set (order_books ?ex'). positive_book ob" by simp
  from match_books_positive [OF assms(1) this, of t 0 0]
  have "\<forall>ob \<in> set (order_books (snd (process_orders srt t ex))). positive_book ob"
    by (simp add: process_orders_def)
  moreover have "positive_volumes (pending_orders (snd (process_orders srt t ex)))"
    by (simp add: process_orders_def match_books_pending positive_volumes_def)
  ultimately show ?thesis by blast
qed

lemma positive_run_invariant:
  assumes "is_std_sort srt"
  shows "positive_run srt ex \<Longrightarrow>
         positive_volumes (pending_orders ex) \<and> (\<forall>ob \<in> set (order_books ex). positive_book ob)"
proof (induction rule: positive_run.induct)
  case (start rank' num_instruments' ex)
  then show ?case
    by (auto simp: Exchange_new_def OrderBook_new_def positive_book_def positive_volumes_def
        split: if_splits)
next
  case (submit ex order)
  then show ?case by (simp add: submit_order_def positive_volumes_def)
next
  case (process ex current_tick)
  then show ?case using process_orders_positive [OF assms, of ex current_tick] by blast
qed

text \<open>
  Claim C9, as stated, with no condition on the volume that is submitted: a buy order of
  volume \<open>- 5\<close> and a buy order of volume 0 are submitted to a new exchange with one
  instrument. No sell order meets them, so the loop of \<^verbatim>\<open>match_orders\<close> does not run, and
  after \<^verbatim>\<open>process_orders\<close> both rest in the book, the first with a negative volume and the
  second with volume 0. (The comparator separates the two orders: every \<^verbatim>\<open>std::sort\<close> within
  its contract gives this order.)
\<close>

theorem nonpositive_volume_rests_counterexample:
  "bids (order_books (snd (process_orders insertion_sort 0
      (submit_order \<lparr>agent_id = 2, instrument_id = 0, price = Fin 100, volume = 0, is_buy = True,
                      timestamp = 1, order_id = 0\<rparr>
        (submit_order \<lparr>agent_id = 1, instrument_id = 0, price = Fin 100, volume = - 5, is_buy = True,
                        timestamp = 0, order_id = 0\<rparr>
           \<lparr>rank = 0, num_instruments = 1, order_books = [OrderBook_new],
             pending_orders = [], trade_log = [], next_order_id = 1\<rparr>)))) ! 0)
   = [\<lparr>agent_id = 1, instrument_id = 0, price = Fin 100, volume = - 5, is_buy = True,
        timestamp = 0, order_id = 1\<rparr>,
      \<lparr>agent_id = 2, instrument_id = 0, price = Fin 100, volume = 0, is_buy = True,
        timestamp = 1, order_id = 2\<rparr>] \<and>
   sint (- 5 :: cint) < 0"
  by (simp add: process_orders_def submit_order_def valid_instrument_def add_order_def
      OrderBook_new_def word_sless_alt word_sle_eq match_books_unfold match_orders_def
      sort_eval match_loop_unfold loop_eval)

text \<open>
  Claim C9, amended: when every submitted order has a positive volume, then in every
  state that \<^verbatim>\<open>submit_order\<close> and \<^verbatim>\<open>process_orders\<close> reach from a new exchange every pending
  and every resting order has a positive volume: it is never negative, and no order of
  volume 0 rests after a matching pass.
\<close>

theorem positive_orders_stay_positive:
  assumes "is_std_sort srt" and "positive_run srt ex"
  shows "(\<forall>x \<in> set (pending_orders ex). 0 < sint (volume x)) \<and>
         (\<forall>ob \<in> set (order_books ex).
            \<forall>x \<in> set (bids ob) \<union> set (asks ob). 0 < sint (volume x))"
  using positive_run_invariant [OF assms]
  by (auto simp: positive_book_def positive_volumes_def word_sless_alt)


theorem positive_orders_stay_positive_witness:
  "is_std_sort insertion_sort \<and>
   positive_run insertion_sort
     (snd (process_orders insertion_sort 0
        (submit_order \<lparr>agent_id = 2, instrument_id = 0, price = Fin 99, volume = 4, is_buy = False,
                        timestamp = 1, order_id = 0\<rparr>
          (submit_order \<lparr>agent_id = 1, instrument_id = 0, price = Fin 101, volume = 10, is_buy = True,
                          timestamp = 0, order_id = 0\<rparr>
             \<lparr>rank = 0, num_instruments = 1, order_books = [OrderBook_new],
               pending_orders = [], trade_log = [], next_order_id = 1\<rparr>)))) \<and>
   order_books
     (snd (process_orders insertion_sort 0
        (submit_order \<lparr>agent_id = 2, instrument_id = 0, price = Fin 99, volume = 4, is_buy = False,
                        timestamp = 1, order_id = 0\<rparr>
          (submit_order \<lparr>agent_id = 1, instrument_id = 0, price = Fin 101, volume = 10, is_buy = True,
                          timestamp = 0, order_id = 0\<rparr>
             \<lparr>rank = 0, num_instruments = 1, order_books = [OrderBook_new],
               pending_orders = [], trade_log = [], next_order_id = 1\<rparr>))))
   = [\<lparr>bids = [\<lparr>agent_id = 1, instrument_id = 0, price = Fin 101, volume = 6, is_buy = True,
                 timestamp = 0, order_id = 1\<rparr>],
        asks = [], last_price = Fin 100, price_history = [Fin 100, Fin 100]\<rparr>] \<and>
   0 < sint (volume (bids (order_books
     (snd (process_orders insertion_sort 0
        (submit_order \<lparr>agent_id = 2, instrument_id = 0, price = Fin 99, volume = 4, is_buy = False,
                        timestamp = 1, order_id = 0\<rparr>
          (submit_order \<lparr>agent_id = 1, instrument_id = 0, price = Fin 101, volume = 10, is_buy = True,
                          timestamp = 0, order_id = 0\<rparr>
             \<lparr>rank = 0, num_instruments = 1, order_books = [OrderBook_new],
               pending_orders = [], trade_log = [], next_order_id = 1\<rparr>)))) ! 0) ! 0))"
proof -
  let ?ex0 = "\<lparr>rank = 0, num_instruments = 1, order_books = [OrderBook_new],
               pending_orders = [], trade_log = [], next_order_id = 1\<rparr>"
  let ?b = "\<lparr>agent_id = 1, instrument_id = 0, price = Fin 101, volume = 10, is_buy = True,
             timestamp = 0, order_id = 0\<rparr>"
  let ?s = "\<lparr>agent_id = 2, instrument_id = 0, price = Fin 99, volume = 4, is_buy = False,
             timestamp = 1, order_id = 0\<rparr>"
  have "Exchange_new 0 1 = Some ?ex0" by (simp add: Exchange_new_def word_sless_alt)
  then have "positive_run insertion_sort ?ex0" by (rule positive_run.start)
  then have "positive_run insertion_sort (submit_order ?b ?ex0)"
    by (rule positive_run.submit) (simp add: word_sless_alt)
  then have "positive_run insertion_sort (submit_order ?s (submit_order ?b ?ex0))"
    by (rule positive_run.submit) (simp add: word_sless_alt)
  then have r: "positive_run insertion_sort
      (snd (process_orders insertion_sort 0 (submit_order ?s (submit_order ?b ?ex0))))"
    by (rule positive_run.process)
  have e: "order_books
      (snd (process_orders insertion_sort 0 (submit_order ?s (submit_order ?b ?ex0))))
    = [\<lparr>bids = [\<lparr>agent_id = 1, instrument_id = 0, price = Fin 101, volume = 6, is_buy = True,
                 timestamp = 0, order_id = 1\<rparr>],
        asks = [], last_price = Fin 100, price_history = [Fin 100, Fin 100]\<rparr>]"
    by (simp add: process_orders_def submit_order_def valid_instrument_def add_order_def
      OrderBook_new_def word_sless_alt word_sle_eq match_books_unfold match_orders_def
      sort_eval match_loop_unfold loop_eval)
  let ?ex = "snd (process_orders insertion_sort 0 (submit_order ?s (submit_order ?b ?ex0)))"
  from positive_orders_stay_positive [OF insertion_sort_is_std_sort r]
  have "\<forall>ob \<in> set (order_books ?ex). \<forall>x \<in> set (bids ob) \<union> set (asks ob). 0 < sint (volume x)"
    by blast
  moreover have "order_books ?ex ! 0 \<in> set (order_books ?ex)"
    and "bids (order_books ?ex ! 0) ! 0 \<in> set (bids (order_books ?ex ! 0))"
    by (simp_all only: e) simp_all
  ultimately have "0 < sint (volume (bids (order_books ?ex ! 0) ! 0))" by blast
  then show ?thesis
    using insertion_sort_is_std_sort r e by blast
qed

subsection \<open>The price and the volume of a trade\<close>

lemma is_double_half: "\<bar>n\<bar> < 2 ^ 53 \<Longrightarrow> is_double (of_int n / 2)"
  unfolding is_double_def by (rule exI [of _ n], rule exI [of _ "- 1"]) (simp add: power_int_minus)

lemma fl_half_numeral [simp]:
  "numeral k < (2::int) ^ 53 \<Longrightarrow> fl (numeral k / 2) = Fin (numeral k / 2)"
  using fl_exact [OF is_double_half [of "numeral k"]] by simp

lemma midpoint_exact:
  assumes "is_double (x + y)" and "is_double ((x + y) / 2)"
  shows "dmul (dadd (Fin x) (Fin y)) (Fin 0.5) = Fin ((x + y) / 2)"
  using assms by (simp add: fl_exact)

lemma fl_tie_200: "fl (14073748835532799 / 70368744177664) = Fin 200"
  using fl_200_less_ulp by simp

lemma is_double_below_100: "is_double (100 - 1 / 2 ^ 46)"
  unfolding is_double_def
  by (rule exI [of _ 7036874417766399], rule exI [of _ "- 46"]) (simp add: power_int_minus)

text \<open>
  Claim C2, as the specification states it: every trade has the arithmetic midpoint of the
  two prices for its price. The sum of the two prices is rounded to a double before it is
  halved. A bid at 100 and an ask at \<open>100 - 2\<^sup>-\<^sup>4\<^sup>6\<close>, a double: the sum \<open>200 - 2\<^sup>-\<^sup>4\<^sup>6\<close> lies
  half way between two doubles and is rounded to 200, so the trade is at 100 and not at
  the midpoint \<open>100 - 2\<^sup>-\<^sup>4\<^sup>7\<close>.
\<close>

theorem trade_price_is_rounded:
  "is_std_sort insertion_sort \<and> is_double (100 - 1 / 2 ^ 46) \<and>
   fst (match_orders insertion_sort 9
     \<lparr>bids = [\<lparr>agent_id = 1, instrument_id = 0, price = Fin 100, volume = 5, is_buy = True,
                timestamp = 0, order_id = 1\<rparr>],
       asks = [\<lparr>agent_id = 2, instrument_id = 0, price = Fin (100 - 1 / 2 ^ 46), volume = 5,
                is_buy = False, timestamp = 1, order_id = 2\<rparr>],
       last_price = Fin 100, price_history = [Fin 100]\<rparr>)
   = [\<lparr>buy_agent_id = 1, sell_agent_id = 2, Trade.instrument_id = 0, Trade.price = Fin 100,
        Trade.volume = 5, Trade.timestamp = 9\<rparr>] \<and>
   Fin 100 \<noteq> Fin ((100 + (100 - 1 / 2 ^ 46)) / 2)"
  using insertion_sort_is_std_sort is_double_below_100
  by (simp add: match_orders_def sort_eval match_loop_unfold loop_eval fl_tie_200)

text \<open>
  Claim C2, amended. In one call of \<^verbatim>\<open>match_orders\<close>, with \<open>bs\<close> and \<open>as\<close> the sorted bids and asks (the
  orders of the book, permuted), \<open>fs\<close> the trace of the loop and \<open>ts\<close> the trades returned:
  there is one trade for each entry of the trace; the price of the trade is the sum in
  doubles of the prices of the bid and of the ask that meet, times 0.5 in doubles, which
  is the midpoint of the two prices when they are finite and their sum and the midpoint
  are doubles; the volumes that remain on the two orders
  at that time are their volumes less the trades against them so far, and the volume of the
  trade is the smaller of the two. Hence the volumes of the trades against an order of
  volume at least 0 sum to at most that volume. For an order that rests after the call
  (the same order, with a new volume), the sum and the size of the volume it rests with
  are together at most the size of the volume it had. And over the whole life of an
  order in its book, from the call of \<^verbatim>\<open>add_order\<close> on, the volumes of all the trades
  against it sum to at most the volume it came with, when that is at least 0.
\<close>

theorem trades_at_midpoint_min_volume:
  assumes "is_std_sort srt"
  shows
   "(let bs = bids (sorted_book srt ob); as = asks (sorted_book srt ob);
         fs = pass_fills srt ob; ts = fst (match_orders srt current_tick ob);
         ob' = snd (match_orders srt current_tick ob)
     in mset bs = mset (bids ob) \<and> mset as = mset (asks ob) \<and> length ts = length fs \<and>
        (\<forall>k < length ts.
           bid_idx (fs ! k) < length bs \<and> ask_idx (fs ! k) < length as \<and>
           Trade.price (ts ! k) =
             dmul (dadd (price (bs ! bid_idx (fs ! k))) (price (as ! ask_idx (fs ! k))))
                  (Fin 0.5) \<and>
           (\<forall>x y. price (bs ! bid_idx (fs ! k)) = Fin x \<and>
                  price (as ! ask_idx (fs ! k)) = Fin y \<and>
                  is_double (x + y) \<and> is_double ((x + y) / 2)
                  \<longrightarrow> Trade.price (ts ! k) = Fin ((x + y) / 2)) \<and>
           bid_remaining (fs ! k) =
             volume (bs ! bid_idx (fs ! k)) -
             sum_list (bid_volumes (take k fs) (take k ts) (bid_idx (fs ! k))) \<and>
           ask_remaining (fs ! k) =
             volume (as ! ask_idx (fs ! k)) -
             sum_list (ask_volumes (take k fs) (take k ts) (ask_idx (fs ! k))) \<and>
           sint (Trade.volume (ts ! k)) =
             min (sint (bid_remaining (fs ! k))) (sint (ask_remaining (fs ! k)))) \<and>
        (\<forall>i < length bs. 0 \<le> sint (volume (bs ! i)) \<longrightarrow>
           sum_list (map sint (bid_volumes fs ts i)) \<le> sint (volume (bs ! i))) \<and>
        (\<forall>i < length as. 0 \<le> sint (volume (as ! i)) \<longrightarrow>
           sum_list (map sint (ask_volumes fs ts i)) \<le> sint (volume (as ! i))) \<and>
        (\<forall>j < length (bids ob').
           j + (length bs - length (bids ob')) < length bs \<and>
           bids ob' ! j = (bs ! (j + (length bs - length (bids ob'))))
                            \<lparr>volume := volume (bids ob' ! j)\<rparr> \<and>
           sum_list (map sint (bid_volumes fs ts (j + (length bs - length (bids ob')))))
             + \<bar>sint (volume (bids ob' ! j))\<bar>
             \<le> \<bar>sint (volume (bs ! (j + (length bs - length (bids ob')))))\<bar>) \<and>
        (\<forall>j < length (asks ob').
           j + (length as - length (asks ob')) < length as \<and>
           asks ob' ! j = (as ! (j + (length as - length (asks ob'))))
                            \<lparr>volume := volume (asks ob' ! j)\<rparr> \<and>
           sum_list (map sint (ask_volumes fs ts (j + (length as - length (asks ob')))))
             + \<bar>sint (volume (asks ob' ! j))\<bar>
             \<le> \<bar>sint (volume (as ! (j + (length as - length (asks ob')))))\<bar>)) \<and>
    (\<forall>x book e. 0 \<le> sint (volume x) \<and> order_life srt x book e \<longrightarrow> e \<le> sint (volume x))"
proof -
  have p: "mset (bids (sorted_book srt ob)) = mset (bids ob)"
    "mset (asks (sorted_book srt ob)) = mset (asks ob)"
    using assms by (simp_all add: is_std_sort_def sorted_book_def)
  have l: "length (fst (match_orders srt current_tick ob)) = length (pass_fills srt ob)"
    by (simp add: pass_trades)
  have b: "sum_list (map sint (bid_volumes (pass_fills srt ob)
                      (fst (match_orders srt current_tick ob)) i))
           \<le> sint (volume (bids (sorted_book srt ob) ! i))"
    if "i < length (bids (sorted_book srt ob))" "0 \<le> sint (volume (bids (sorted_book srt ob) ! i))"
    for i
    using pass_executed_bid [OF that(1), of current_tick] that(2) by simp
  have a: "sum_list (map sint (ask_volumes (pass_fills srt ob)
                      (fst (match_orders srt current_tick ob)) i))
           \<le> sint (volume (asks (sorted_book srt ob) ! i))"
    if "i < length (asks (sorted_book srt ob))" "0 \<le> sint (volume (asks (sorted_book srt ob) ! i))"
    for i
    using pass_executed_ask [OF that(1), of current_tick] that(2) by simp
  have life: "e \<le> sint (volume x)" if "0 \<le> sint (volume x) \<and> order_life srt x book e"
    for x book e
    using order_life_bound [OF assms, of x book e] that by simp
  have mid: "Trade.price (fst (match_orders srt current_tick ob) ! k) = Fin ((x + y) / 2)"
    if "k < length (fst (match_orders srt current_tick ob))"
      and "price (bids (sorted_book srt ob) ! bid_idx (pass_fills srt ob ! k)) = Fin x \<and>
           price (asks (sorted_book srt ob) ! ask_idx (pass_fills srt ob ! k)) = Fin y \<and>
           is_double (x + y) \<and> is_double ((x + y) / 2)" for k x y
  proof -
    have "Trade.price (fst (match_orders srt current_tick ob) ! k) =
          dmul (dadd (Fin x) (Fin y)) (Fin 0.5)"
      using pass_each_trade [of k srt ob current_tick] that l
      by (simp del: dadd.simps dmul.simps)
    also have "\<dots> = Fin ((x + y) / 2)"
      by (rule midpoint_exact) (use that(2) in simp_all)
    finally show ?thesis .
  qed
  show ?thesis
    unfolding Let_def
    using p l b a life mid pass_each_trade [of _ srt ob current_tick]
      pass_resting_bid [of _ srt current_tick ob] pass_resting_ask [of _ srt current_tick ob]
    by (intro conjI allI impI) simp_all
qed


theorem trades_at_midpoint_min_volume_witness:
  "is_std_sort insertion_sort \<and>
   pass_fills insertion_sort
     \<lparr>bids = [\<lparr>agent_id = 1, instrument_id = 0, price = Fin 100, volume = 5, is_buy = True,
                timestamp = 0, order_id = 1\<rparr>],
       asks = [\<lparr>agent_id = 2, instrument_id = 0, price = Fin 100, volume = 3, is_buy = False,
                timestamp = 0, order_id = 2\<rparr>,
              \<lparr>agent_id = 3, instrument_id = 0, price = Fin 99, volume = 4, is_buy = False,
                timestamp = 1, order_id = 3\<rparr>],
       last_price = Fin 100, price_history = [Fin 100]\<rparr>
   = [\<lparr>bid_idx = 0, ask_idx = 0, bid_remaining = 5, ask_remaining = 4\<rparr>,
      \<lparr>bid_idx = 0, ask_idx = 1, bid_remaining = 1, ask_remaining = 3\<rparr>] \<and>
   fst (match_orders insertion_sort 9
     \<lparr>bids = [\<lparr>agent_id = 1, instrument_id = 0, price = Fin 100, volume = 5, is_buy = True,
                timestamp = 0, order_id = 1\<rparr>],
       asks = [\<lparr>agent_id = 2, instrument_id = 0, price = Fin 100, volume = 3, is_buy = False,
                timestamp = 0, order_id = 2\<rparr>,
              \<lparr>agent_id = 3, instrument_id = 0, price = Fin 99, volume = 4, is_buy = False,
                timestamp = 1, order_id = 3\<rparr>],
       last_price = Fin 100, price_history = [Fin 100]\<rparr>)
   = [\<lparr>buy_agent_id = 1, sell_agent_id = 3, Trade.instrument_id = 0, Trade.price = Fin 99.5,
        Trade.volume = 4, Trade.timestamp = 9\<rparr>,
      \<lparr>buy_agent_id = 1, sell_agent_id = 2, Trade.instrument_id = 0, Trade.price = Fin 100,
        Trade.volume = 1, Trade.timestamp = 9\<rparr>] \<and>
   is_double (100 + 99) \<and> is_double ((100 + 99) / 2) \<and>
   Trade.price (fst (match_orders insertion_sort 9
     \<lparr>bids = [\<lparr>agent_id = 1, instrument_id = 0, price = Fin 100, volume = 5, is_buy = True,
                timestamp = 0, order_id = 1\<rparr>],
       asks = [\<lparr>agent_id = 2, instrument_id = 0, price = Fin 100, volume = 3, is_buy = False,
                timestamp = 0, order_id = 2\<rparr>,
              \<lparr>agent_id = 3, instrument_id = 0, price = Fin 99, volume = 4, is_buy = False,
                timestamp = 1, order_id = 3\<rparr>],
       last_price = Fin 100, price_history = [Fin 100]\<rparr>) ! 0) = Fin ((100 + 99) / 2) \<and>
   (0 :: int) \<le> sint (5 :: cint) \<and>
   sum_list (map sint (bid_volumes
      (pass_fills insertion_sort
        \<lparr>bids = [\<lparr>agent_id = 1, instrument_id = 0, price = Fin 100, volume = 5, is_buy = True,
                timestamp = 0, order_id = 1\<rparr>],
       asks = [\<lparr>agent_id = 2, instrument_id = 0, price = Fin 100, volume = 3, is_buy = False,
                timestamp = 0, order_id = 2\<rparr>,
              \<lparr>agent_id = 3, instrument_id = 0, price = Fin 99, volume = 4, is_buy = False,
                timestamp = 1, order_id = 3\<rparr>],
       last_price = Fin 100, price_history = [Fin 100]\<rparr>)
      (fst (match_orders insertion_sort 9
        \<lparr>bids = [\<lparr>agent_id = 1, instrument_id = 0, price = Fin 100, volume = 5, is_buy = True,
                timestamp = 0, order_id = 1\<rparr>],
       asks = [\<lparr>agent_id = 2, instrument_id = 0, price = Fin 100, volume = 3, is_buy = False,
                timestamp = 0, order_id = 2\<rparr>,
              \<lparr>agent_id = 3, instrument_id = 0, price = Fin 99, volume = 4, is_buy = False,
                timestamp = 1, order_id = 3\<rparr>],
       last_price = Fin 100, price_history = [Fin 100]\<rparr>)) 0)) \<le> 5 \<and>
   order_life insertion_sort
     \<lparr>agent_id = 1, instrument_id = 0, price = Fin 100, volume = 5, is_buy = True,
       timestamp = 0, order_id = 1\<rparr>
     (snd (match_orders insertion_sort 9
        \<lparr>bids = [\<lparr>agent_id = 1, instrument_id = 0, price = Fin 100, volume = 5, is_buy = True,
                timestamp = 0, order_id = 1\<rparr>],
       asks = [\<lparr>agent_id = 2, instrument_id = 0, price = Fin 100, volume = 3, is_buy = False,
                timestamp = 0, order_id = 2\<rparr>,
              \<lparr>agent_id = 3, instrument_id = 0, price = Fin 99, volume = 4, is_buy = False,
                timestamp = 1, order_id = 3\<rparr>],
       last_price = Fin 100, price_history = [Fin 100]\<rparr>))
     (executed_against 1 insertion_sort 9
        \<lparr>bids = [\<lparr>agent_id = 1, instrument_id = 0, price = Fin 100, volume = 5, is_buy = True,
                timestamp = 0, order_id = 1\<rparr>],
       asks = [\<lparr>agent_id = 2, instrument_id = 0, price = Fin 100, volume = 3, is_buy = False,
                timestamp = 0, order_id = 2\<rparr>,
              \<lparr>agent_id = 3, instrument_id = 0, price = Fin 99, volume = 4, is_buy = False,
                timestamp = 1, order_id = 3\<rparr>],
       last_price = Fin 100, price_history = [Fin 100]\<rparr>) \<and>
   executed_against 1 insertion_sort 9
     \<lparr>bids = [\<lparr>agent_id = 1, instrument_id = 0, price = Fin 100, volume = 5, is_buy = True,
                timestamp = 0, order_id = 1\<rparr>],
       asks = [\<lparr>agent_id = 2, instrument_id = 0, price = Fin 100, volume = 3, is_buy = False,
                timestamp = 0, order_id = 2\<rparr>,
              \<lparr>agent_id = 3, instrument_id = 0, price = Fin 99, volume = 4, is_buy = False,
                timestamp = 1, order_id = 3\<rparr>],
       last_price = Fin 100, price_history = [Fin 100]\<rparr> \<le> 5 \<and>
   executed_against 1 insertion_sort 9
     \<lparr>bids = [\<lparr>agent_id = 1, instrument_id = 0, price = Fin 100, volume = 5, is_buy = True,
                timestamp = 0, order_id = 1\<rparr>],
       asks = [\<lparr>agent_id = 2, instrument_id = 0, price = Fin 100, volume = 3, is_buy = False,
                timestamp = 0, order_id = 2\<rparr>,
              \<lparr>agent_id = 3, instrument_id = 0, price = Fin 99, volume = 4, is_buy = False,
                timestamp = 1, order_id = 3\<rparr>],
       last_price = Fin 100, price_history = [Fin 100]\<rparr> = 5"
proof -
  let ?x = "\<lparr>agent_id = 1, instrument_id = 0, price = Fin 100, volume = 5, is_buy = True,
       timestamp = 0, order_id = 1\<rparr>"
  let ?ob = "\<lparr>bids = [\<lparr>agent_id = 1, instrument_id = 0, price = Fin 100, volume = 5, is_buy = True,
                timestamp = 0, order_id = 1\<rparr>],
       asks = [\<lparr>agent_id = 2, instrument_id = 0, price = Fin 100, volume = 3, is_buy = False,
                timestamp = 0, order_id = 2\<rparr>,
              \<lparr>agent_id = 3, instrument_id = 0, price = Fin 99, volume = 4, is_buy = False,
                timestamp = 1, order_id = 3\<rparr>],
       last_price = Fin 100, price_history = [Fin 100]\<rparr>"
  have f: "pass_fills insertion_sort ?ob
     = [\<lparr>bid_idx = 0, ask_idx = 0, bid_remaining = 5, ask_remaining = 4\<rparr>,
      \<lparr>bid_idx = 0, ask_idx = 1, bid_remaining = 1, ask_remaining = 3\<rparr>]"
    by (simp add: fills_eval)
  have b: "bids (sorted_book insertion_sort ?ob) = [?x]"
    and a: "asks (sorted_book insertion_sort ?ob) =
             [\<lparr>agent_id = 3, instrument_id = 0, price = Fin 99, volume = 4, is_buy = False,
       timestamp = 1, order_id = 3\<rparr>,
              \<lparr>agent_id = 2, instrument_id = 0, price = Fin 100, volume = 3, is_buy = False,
       timestamp = 0, order_id = 2\<rparr>]"
    by (simp_all add: sorted_book_def sort_eval)
  have t: "fst (match_orders insertion_sort 9 ?ob) =
       [\<lparr>buy_agent_id = 1, sell_agent_id = 3, Trade.instrument_id = 0, Trade.price = Fin 99.5,
        Trade.volume = 4, Trade.timestamp = 9\<rparr>,
      \<lparr>buy_agent_id = 1, sell_agent_id = 2, Trade.instrument_id = 0, Trade.price = Fin 100,
        Trade.volume = 1, Trade.timestamp = 9\<rparr>]"
    unfolding pass_trades f b a by (simp add: fill_trade_def fill_vol_def std_min_def word_sless_alt)
  have ex: "executed_against 1 insertion_sort 9 ?ob = 5"
    unfolding executed_against_def f b a t
    by (simp add: bid_volumes_def ask_volumes_def upt_rec)
  have "order_life insertion_sort ?x (add_order ?x OrderBook_new) 0"
    by (rule order_life.submitted) (simp add: OrderBook_new_def)
  then have "order_life insertion_sort ?x
      (add_order \<lparr>agent_id = 2, instrument_id = 0, price = Fin 100, volume = 3, is_buy = False,
       timestamp = 0, order_id = 2\<rparr> (add_order ?x OrderBook_new)) 0"
    by (rule order_life.other) simp
  then have "order_life insertion_sort ?x
      (add_order \<lparr>agent_id = 3, instrument_id = 0, price = Fin 99, volume = 4, is_buy = False,
       timestamp = 1, order_id = 3\<rparr>
        (add_order \<lparr>agent_id = 2, instrument_id = 0, price = Fin 100, volume = 3, is_buy = False,
       timestamp = 0, order_id = 2\<rparr> (add_order ?x OrderBook_new))) 0"
    by (rule order_life.other) simp
  then have "order_life insertion_sort ?x ?ob 0"
    by (simp add: add_order_def OrderBook_new_def)
  then have "order_life insertion_sort ?x (snd (match_orders insertion_sort 9 ?ob))
      (0 + executed_against (order_id ?x) insertion_sort 9 ?ob)"
    by (rule order_life.pass)
  then have life: "order_life insertion_sort ?x (snd (match_orders insertion_sort 9 ?ob))
      (executed_against 1 insertion_sort 9 ?ob)"
    by simp
  note main = trades_at_midpoint_min_volume [OF insertion_sort_is_std_sort, of ?ob 9]
  from main have "\<forall>i < length (bids (sorted_book insertion_sort ?ob)).
          0 \<le> sint (volume (bids (sorted_book insertion_sort ?ob) ! i)) \<longrightarrow>
          sum_list (map sint (bid_volumes (pass_fills insertion_sort ?ob)
             (fst (match_orders insertion_sort 9 ?ob)) i))
          \<le> sint (volume (bids (sorted_book insertion_sort ?ob) ! i))"
    unfolding Let_def by (elim conjE)
  then have s: "sum_list (map sint (bid_volumes (pass_fills insertion_sort ?ob)
             (fst (match_orders insertion_sort 9 ?ob)) 0)) \<le> 5"
    unfolding b by simp
  have d: "is_double (100 + 99)" "is_double ((100 + 99) / 2)"
    using is_double_of_int [of 199] is_double_half [of 199] by simp_all
  from main have "\<forall>k < length (fst (match_orders insertion_sort 9 ?ob)).
      \<forall>x y. price (bids (sorted_book insertion_sort ?ob) ! bid_idx (pass_fills insertion_sort ?ob ! k)) = Fin x \<and>
            price (asks (sorted_book insertion_sort ?ob) ! ask_idx (pass_fills insertion_sort ?ob ! k)) = Fin y \<and>
            is_double (x + y) \<and> is_double ((x + y) / 2)
            \<longrightarrow> Trade.price (fst (match_orders insertion_sort 9 ?ob) ! k) = Fin ((x + y) / 2)"
    unfolding Let_def by blast
  from this [rule_format, of 0 100 99] d
  have m: "Trade.price (fst (match_orders insertion_sort 9 ?ob) ! 0) = Fin ((100 + 99) / 2)"
    unfolding f b a by (simp add: t)
  from main have all: "\<forall>x book e. 0 \<le> sint (volume x) \<and> order_life insertion_sort x book e
      \<longrightarrow> e \<le> sint (volume x)"
    by (elim conjE)
  have "0 \<le> sint (volume ?x)" by simp
  from all [rule_format, OF conjI, OF this life]
  have l: "executed_against 1 insertion_sort 9 ?ob \<le> 5"
    by simp
  show ?thesis
    using insertion_sort_is_std_sort f t s life l ex d m by simp
qed

section \<open>The result of process_orders\<close>

text \<open>The second loop of \<^verbatim>\<open>process_orders\<close>, from the book of index \<open>i\<close> on.\<close>

lemma match_books_result:
  "i \<le> length (order_books ex) \<Longrightarrow>
   match_books srt t ex i n =
     (n + word_of_nat (length (concat (map (\<lambda>ob. fst (match_orders srt t ob))
                                          (drop i (order_books ex))))),
      ex\<lparr>order_books := take i (order_books ex) @
                           map (\<lambda>ob. snd (match_orders srt t ob)) (drop i (order_books ex)),
          trade_log := trade_log ex @
                         concat (map (\<lambda>ob. fst (match_orders srt t ob))
                                   (drop i (order_books ex)))\<rparr>)"
proof (induction srt t ex i n rule: match_books.induct)
  case (1 srt t ex i n)
  show ?case
  proof (cases "i < length (order_books ex)")
    case True
    let ?obs = "order_books ex"
    let ?ex' = "ex\<lparr>order_books := ?obs[i := snd (match_orders srt t (?obs ! i))],
                   trade_log := trade_log ex @ fst (match_orders srt t (?obs ! i))\<rparr>"
    let ?n' = "n + word_of_nat (length (fst (match_orders srt t (?obs ! i))))"
    have d: "drop i ?obs = ?obs ! i # drop (Suc i) ?obs"
      using True by (simp add: Cons_nth_drop_Suc)
    have tk: "take (Suc i) (?obs[i := snd (match_orders srt t (?obs ! i))]) =
              take i ?obs @ [snd (match_orders srt t (?obs ! i))]"
      using True by (simp add: take_Suc_conv_app_nth)
    have dr: "drop (Suc i) (?obs[i := snd (match_orders srt t (?obs ! i))]) = drop (Suc i) ?obs"
      by simp
    have "match_books srt t ?ex' (i + 1) ?n' =
      (?n' + word_of_nat (length (concat (map (\<lambda>ob. fst (match_orders srt t ob))
                                          (drop (i + 1) (order_books ?ex'))))),
       ?ex'\<lparr>order_books := take (i + 1) (order_books ?ex') @
                           map (\<lambda>ob. snd (match_orders srt t ob)) (drop (i + 1) (order_books ?ex')),
          trade_log := trade_log ?ex' @
                         concat (map (\<lambda>ob. fst (match_orders srt t ob))
                                   (drop (i + 1) (order_books ?ex')))\<rparr>)"
      using "1.IH" [OF True prod.collapse refl] True by simp
    then have "match_books srt t ?ex' (i + 1) ?n' =
      (?n' + word_of_nat (length (concat (map (\<lambda>ob. fst (match_orders srt t ob))
                                          (drop (Suc i) ?obs)))),
       ex\<lparr>order_books := (take i ?obs @ [snd (match_orders srt t (?obs ! i))]) @
                           map (\<lambda>ob. snd (match_orders srt t ob)) (drop (Suc i) ?obs),
          trade_log := (trade_log ex @ fst (match_orders srt t (?obs ! i))) @
                         concat (map (\<lambda>ob. fst (match_orders srt t ob))
                                   (drop (Suc i) ?obs))\<rparr>)"
      by (simp add: tk dr)
    then show ?thesis
      using True by (subst match_books_unfold) (simp add: d)
  next
    case False
    then show ?thesis using "1.prems" by (subst match_books_unfold) simp
  qed
qed

lemma route_pending_map:
  assumes "length obs < 2 ^ 31"
  shows "route_pending q obs =
         map (\<lambda>i. foldl (\<lambda>ob x. add_order x ob) (obs ! i)
                     (filter (\<lambda>x. sint (instrument_id x) = int i) q)) [0..<length obs]"
  by (rule nth_equalityI) (simp_all add: route_pending_nth [OF assms])

text \<open>
  Claim C6. \<^verbatim>\<open>process_orders\<close> drops the pending orders whose \<^verbatim>\<open>instrument_id\<close> is outside
  \<open>[0, number of instruments)\<close> and routes and matches the others. Its result is this one:
  the book of index \<open>i\<close> is the result of \<^verbatim>\<open>match_orders\<close> on the old book with the pending
  orders of instrument \<open>i\<close> added, in the order of the queue, and no other order; the trades
  of the books, in the order of the books, go to the end of the trade log and their number
  is returned; the queue is empty; nothing else changes. An order whose id is outside the
  range is in none of the books, and the result is the one that \<^verbatim>\<open>process_orders\<close> has when
  these orders are taken out of the queue beforehand. The function has no error result.
  The number of books is below \<open>2\<^sup>3\<^sup>1\<close>, as it is for every exchange that the constructor
  makes.
\<close>

theorem out_of_range_orders_dropped:
  assumes "length (order_books ex) < 2 ^ 31"
  shows "(let n = length (order_books ex);
              routed = (\<lambda>i. foldl (\<lambda>ob x. add_order x ob) (order_books ex ! i)
                              (filter (\<lambda>x. sint (instrument_id x) = int i) (pending_orders ex)));
              trades = concat (map (\<lambda>i. fst (match_orders srt current_tick (routed i))) [0..<n])
          in process_orders srt current_tick ex =
             (word_of_nat (length trades),
              ex\<lparr>order_books := map (\<lambda>i. snd (match_orders srt current_tick (routed i))) [0..<n],
                 pending_orders := [],
                 trade_log := trade_log ex @ trades\<rparr>)) \<and>
         process_orders srt current_tick ex =
         process_orders srt current_tick
           (ex\<lparr>pending_orders :=
                 filter (\<lambda>x. 0 \<le> sint (instrument_id x) \<and>
                              sint (instrument_id x) < int (length (order_books ex)))
                   (pending_orders ex)\<rparr>)"
proof -
  let ?routed = "\<lambda>i. foldl (\<lambda>ob x. add_order x ob) (order_books ex ! i)
                        (filter (\<lambda>x. sint (instrument_id x) = int i) (pending_orders ex))"
  have r: "route_pending (pending_orders ex) (order_books ex) =
           map ?routed [0..<length (order_books ex)]"
    by (rule route_pending_map [OF assms])
  have "process_orders srt current_tick ex =
        match_books srt current_tick
          (ex\<lparr>order_books := map ?routed [0..<length (order_books ex)], pending_orders := []\<rparr>) 0 0"
    by (simp add: process_orders_def r)
  also have "\<dots> =
     (word_of_nat (length (concat (map (\<lambda>i. fst (match_orders srt current_tick (?routed i)))
                                    [0..<length (order_books ex)]))),
      ex\<lparr>order_books := map (\<lambda>i. snd (match_orders srt current_tick (?routed i)))
                            [0..<length (order_books ex)],
         pending_orders := [],
         trade_log := trade_log ex @
           concat (map (\<lambda>i. fst (match_orders srt current_tick (?routed i)))
                     [0..<length (order_books ex)])\<rparr>)"
    by (subst match_books_result) (simp_all add: comp_def)
  finally have main: "process_orders srt current_tick ex =
     (word_of_nat (length (concat (map (\<lambda>i. fst (match_orders srt current_tick (?routed i)))
                                    [0..<length (order_books ex)]))),
      ex\<lparr>order_books := map (\<lambda>i. snd (match_orders srt current_tick (?routed i)))
                            [0..<length (order_books ex)],
         pending_orders := [],
         trade_log := trade_log ex @
           concat (map (\<lambda>i. fst (match_orders srt current_tick (?routed i)))
                     [0..<length (order_books ex)])\<rparr>)" .
  have e: "(\<lambda>x. 0 \<le> sint (instrument_id x) \<and> sint (instrument_id x) < int (length (order_books ex)))
        = (\<lambda>x. valid_instrument (order_books ex) (instrument_id x))"
    using valid_instrument_iff [OF assms] by simp
  have "process_orders srt current_tick
           (ex\<lparr>pending_orders :=
                 filter (\<lambda>x. valid_instrument (order_books ex) (instrument_id x))
                   (pending_orders ex)\<rparr>) = process_orders srt current_tick ex"
    by (simp add: process_orders_def route_pending_filter [symmetric])
  then have "process_orders srt current_tick ex =
         process_orders srt current_tick
           (ex\<lparr>pending_orders :=
                 filter (\<lambda>x. 0 \<le> sint (instrument_id x) \<and>
                              sint (instrument_id x) < int (length (order_books ex)))
                   (pending_orders ex)\<rparr>)"
    by (simp only: e)
  with main show ?thesis unfolding Let_def by (rule conjI)
qed

theorem out_of_range_orders_dropped_witness:
  "length (order_books \<lparr>rank = 0, num_instruments = 1, order_books = [OrderBook_new],
      pending_orders =
        [\<lparr>agent_id = 1, instrument_id = 5, price = Fin 101, volume = 10, is_buy = True,
           timestamp = 0, order_id = 1\<rparr>,
         \<lparr>agent_id = 2, instrument_id = 0, price = Fin 99, volume = 10, is_buy = False,
           timestamp = 0, order_id = 2\<rparr>,
         \<lparr>agent_id = 3, instrument_id = - 1, price = Fin 101, volume = 10, is_buy = True,
           timestamp = 0, order_id = 3\<rparr>,
         \<lparr>agent_id = 4, instrument_id = 0, price = Fin 101, volume = 4, is_buy = True,
           timestamp = 0, order_id = 4\<rparr>],
      trade_log = [], next_order_id = 5\<rparr>) < 2 ^ 31 \<and>
   process_orders insertion_sort 7
     \<lparr>rank = 0, num_instruments = 1, order_books = [OrderBook_new],
      pending_orders =
        [\<lparr>agent_id = 1, instrument_id = 5, price = Fin 101, volume = 10, is_buy = True,
           timestamp = 0, order_id = 1\<rparr>,
         \<lparr>agent_id = 2, instrument_id = 0, price = Fin 99, volume = 10, is_buy = False,
           timestamp = 0, order_id = 2\<rparr>,
         \<lparr>agent_id = 3, instrument_id = - 1, price = Fin 101, volume = 10, is_buy = True,
           timestamp = 0, order_id = 3\<rparr>,
         \<lparr>agent_id = 4, instrument_id = 0, price = Fin 101, volume = 4, is_buy = True,
           timestamp = 0, order_id = 4\<rparr>],
      trade_log = [], next_order_id = 5\<rparr>
   = (1, \<lparr>rank = 0, num_instruments = 1,
           order_books =
             [\<lparr>bids = [],
               asks = [\<lparr>agent_id = 2, instrument_id = 0, price = Fin 99, volume = 6,
                        is_buy = False, timestamp = 0, order_id = 2\<rparr>],
               last_price = Fin 100, price_history = [Fin 100, Fin 100]\<rparr>],
           pending_orders = [],
           trade_log = [\<lparr>buy_agent_id = 4, sell_agent_id = 2, Trade.instrument_id = 0,
                          Trade.price = Fin 100, Trade.volume = 4, Trade.timestamp = 7\<rparr>],
           next_order_id = 5\<rparr>)"
proof -
  let ?ex = "\<lparr>rank = 0, num_instruments = 1, order_books = [OrderBook_new],
      pending_orders =
        [\<lparr>agent_id = 1, instrument_id = 5, price = Fin 101, volume = 10, is_buy = True,
           timestamp = 0, order_id = 1\<rparr>,
         \<lparr>agent_id = 2, instrument_id = 0, price = Fin 99, volume = 10, is_buy = False,
           timestamp = 0, order_id = 2\<rparr>,
         \<lparr>agent_id = 3, instrument_id = - 1, price = Fin 101, volume = 10, is_buy = True,
           timestamp = 0, order_id = 3\<rparr>,
         \<lparr>agent_id = 4, instrument_id = 0, price = Fin 101, volume = 4, is_buy = True,
           timestamp = 0, order_id = 4\<rparr>],
      trade_log = [], next_order_id = 5\<rparr>"
  have h: "length (order_books ?ex) < 2 ^ 31" by simp
  have m: "match_orders insertion_sort 7
      \<lparr>bids = [\<lparr>agent_id = 4, instrument_id = 0, price = Fin 101, volume = 4, is_buy = True,
           timestamp = 0, order_id = 4\<rparr>],
        asks = [\<lparr>agent_id = 2, instrument_id = 0, price = Fin 99, volume = 10, is_buy = False,
           timestamp = 0, order_id = 2\<rparr>],
        last_price = Fin 100, price_history = [Fin 100]\<rparr>
    = ([\<lparr>buy_agent_id = 4, sell_agent_id = 2, Trade.instrument_id = 0,
          Trade.price = Fin 100, Trade.volume = 4, Trade.timestamp = 7\<rparr>],
       \<lparr>bids = [],
         asks = [\<lparr>agent_id = 2, instrument_id = 0, price = Fin 99, volume = 6,
                  is_buy = False, timestamp = 0, order_id = 2\<rparr>],
         last_price = Fin 100, price_history = [Fin 100, Fin 100]\<rparr>)"
    by (simp add: match_orders_def sort_eval match_loop_unfold loop_eval)
  from out_of_range_orders_dropped [OF h, of insertion_sort 7]
  have "process_orders insertion_sort 7 ?ex =
     (word_of_nat (length (concat (map (\<lambda>i. fst (match_orders insertion_sort 7
         (foldl (\<lambda>ob x. add_order x ob) (order_books ?ex ! i)
            (filter (\<lambda>x. sint (instrument_id x) = int i) (pending_orders ?ex)))))
         [0..<length (order_books ?ex)]))),
      ?ex\<lparr>order_books := map (\<lambda>i. snd (match_orders insertion_sort 7
         (foldl (\<lambda>ob x. add_order x ob) (order_books ?ex ! i)
            (filter (\<lambda>x. sint (instrument_id x) = int i) (pending_orders ?ex)))))
         [0..<length (order_books ?ex)],
        pending_orders := [],
        trade_log := trade_log ?ex @ concat (map (\<lambda>i. fst (match_orders insertion_sort 7
         (foldl (\<lambda>ob x. add_order x ob) (order_books ?ex ! i)
            (filter (\<lambda>x. sint (instrument_id x) = int i) (pending_orders ?ex)))))
         [0..<length (order_books ?ex)])\<rparr>)"
    unfolding Let_def by (rule conjunct1)
  then show ?thesis using h by (simp add: add_order_def OrderBook_new_def m)
qed

section \<open>The prices across the ranks\<close>









end
